theory Spec2Isabelle
  imports Main "HOL-Library.AList"
begin

section \<open>Data model\<close>

text \<open>
  The notebook \<^verbatim>\<open>Collapsing Orthologous Nodes.ipynb\<close> builds equivalence classes of
  gene identifiers from the connected components of an orthology graph (cell 11), maps
  every identifier to the MGI member of its class (cell 12), and applies the mapping to
  the nodes of a second graph (cells 17 and 18).

  A node of a BEL graph is the tuple \<open>(function, namespace, name)\<close> that the loops of
  the notebook unpack. A node's attribute dictionary maps attribute names to values.
\<close>

type_synonym gene = "string \<times> string \<times> string"

type_synonym attrs = "string \<rightharpoonup> string"

text \<open>
  A graph keeps the dictionary \<open>G.node\<close> (node to attribute dictionary) and its edges,
  each under its key \<open>(u, v, key)\<close> with the edge's data dictionary. Both are
  association lists: the order of the list is the order in which the dictionary is
  iterated. An undirected graph keeps each edge once and reads it in both directions.
\<close>

record graph =
  node :: "(gene \<times> attrs) list"
  edge :: "((gene \<times> gene \<times> nat) \<times> attrs) list"

definition nodes_of :: "graph \<Rightarrow> gene list" where
  "nodes_of G = map fst (node G)"

definition src :: "(gene \<times> gene \<times> nat) \<times> attrs \<Rightarrow> gene" where
  "src e = fst (fst e)"

definition tgt :: "(gene \<times> gene \<times> nat) \<times> attrs \<Rightarrow> gene" where
  "tgt e = fst (snd (fst e))"

definition neighbors :: "graph \<Rightarrow> gene \<Rightarrow> gene list" where
  "neighbors G v =
     concat (map (\<lambda>e. (if src e = v then [tgt e] else []) @ (if tgt e = v then [src e] else []))
       (edge G))"

definition endpoints :: "graph \<Rightarrow> gene set" where
  "endpoints G = src ` set (edge G) \<union> tgt ` set (edge G)"

definition adjacent :: "graph \<Rightarrow> (gene \<times> gene) set" where
  "adjacent G = {(a, b). b \<in> set (neighbors G a)}"

text \<open>
  The invariant of the graph data structure: a dictionary has each key once, and both
  ends of every edge are nodes.
\<close>

definition wf_graph :: "graph \<Rightarrow> bool" where
  "wf_graph G \<longleftrightarrow>
     distinct (map fst (node G)) \<and> distinct (map fst (edge G)) \<and>
     endpoints G \<subseteq> set (nodes_of G)"

section \<open>Graph construction (library calls)\<close>

text \<open>
  The notebook never builds a graph itself: the graphs are loaded by the BEL library
  and changed by the graph library, and neither library's code is part of the
  repository. The operations of the graph library that the relabeling of cell 18 rests
  on are modelled here.
\<close>

text \<open>
  Modelled from the spec: the graph library's \<open>add_node\<close>, missing from the repository.
  The spec's relabeling merges attributes, overwriting on key collision: adding a node
  that exists updates its attribute dictionary with the given one.
\<close>

definition add_node :: "gene \<Rightarrow> attrs \<Rightarrow> graph \<Rightarrow> graph" where
  "add_node n attr_dict G =
     G\<lparr>node := AList.update n
                 (case map_of (node G) n of None \<Rightarrow> attr_dict | Some a \<Rightarrow> a ++ attr_dict)
                 (node G)\<rparr>"

text \<open>
  Modelled from the spec: the graph library's \<open>add_edge\<close>, missing from the repository.
  It adds the two ends of the edge as nodes without attributes when they are missing
  (\<open>ensure_node\<close>) and, when the edge key exists already, updates the edge's data.
\<close>

definition ensure_node :: "gene \<Rightarrow> graph \<Rightarrow> graph" where
  "ensure_node n G = (if n \<in> set (nodes_of G) then G else G\<lparr>node := node G @ [(n, Map.empty)]\<rparr>)"

definition add_edge :: "gene \<Rightarrow> gene \<Rightarrow> nat \<Rightarrow> attrs \<Rightarrow> graph \<Rightarrow> graph" where
  "add_edge u v key attr_dict G =
     (let G' = ensure_node v (ensure_node u G)
      in G'\<lparr>edge := AList.update (u, v, key)
                     (case map_of (edge G') (u, v, key) of
                        None \<Rightarrow> attr_dict
                      | Some d \<Rightarrow> d ++ attr_dict)
                     (edge G')\<rparr>)"

text \<open>
  Modelled from the spec: the graph library's \<open>add_edges_from\<close>, missing from the
  repository: the edges are added one after the other.
\<close>

fun add_edges_from :: "((gene \<times> gene \<times> nat) \<times> attrs) list \<Rightarrow> graph \<Rightarrow> graph" where
  "add_edges_from [] G = G"
| "add_edges_from (((u, v, key), d) # es) G = add_edges_from es (add_edge u v key d G)"

text \<open>
  Modelled from the spec: the graph library's \<open>remove_node\<close>, missing from the
  repository: the node goes, and with it every edge that starts or ends at it.
\<close>

definition remove_node :: "gene \<Rightarrow> graph \<Rightarrow> graph" where
  "remove_node n G =
     G\<lparr>node := AList.delete n (node G),
       edge := filter (\<lambda>e. src e \<noteq> n \<and> tgt e \<noteq> n) (edge G)\<rparr>"

definition empty_graph :: graph where
  "empty_graph = \<lparr>node = [], edge = []\<rparr>"

text \<open>
  Modelled from the spec: the loading of the orthology graph, done by the BEL library
  and missing from the repository. The spec's input is a set of undirected edges between
  identifier pairs; \<open>graph_of_edges\<close> is the graph that holds exactly these pairs: every
  pair is added as an edge, which adds its two identifiers as nodes. The identifiers
  the pairs touch are \<open>touched\<close>.
\<close>

fun graph_of_edges :: "(gene \<times> gene) list \<Rightarrow> graph \<Rightarrow> graph" where
  "graph_of_edges [] G = G"
| "graph_of_edges ((u, v) # es) G = graph_of_edges es (add_edge u v 0 Map.empty G)"

definition touched :: "(gene \<times> gene) list \<Rightarrow> gene set" where
  "touched E = fst ` set E \<union> snd ` set E"

section \<open>Connected components (library call of cell 11)\<close>

text \<open>
  Modelled from the spec: the search behind \<open>nx.connected_components\<close>, a call into the
  graph library whose code is missing from the repository. The spec describes the call
  as computing the connected components over the node and edge set, a component being
  a maximal set of nodes that reach each other by some path. \<open>plain_bfs_loop\<close> collects
  the nodes reachable from the nodes still to visit, following the neighbours of every
  node it has not seen before.
\<close>

function plain_bfs_loop :: "graph \<Rightarrow> gene list \<Rightarrow> gene list \<Rightarrow> gene list" where
  "plain_bfs_loop G seen [] = seen"
| "plain_bfs_loop G seen (v # todo) =
     (if v \<in> set seen then plain_bfs_loop G seen todo
      else plain_bfs_loop G (seen @ [v]) (todo @ neighbors G v))"
  by pat_completeness auto

termination plain_bfs_loop
proof (relation "inv_image (less_than <*lex*> less_than)
          (\<lambda>(G, seen, todo). (card ((endpoints G \<union> set todo) - set seen), length todo))")
  show "wf (inv_image (less_than <*lex*> less_than)
          (\<lambda>(G, seen, todo). (card ((endpoints G \<union> set todo) - set seen), length todo)))"
    by (intro wf_inv_image wf_lex_prod wf_less_than)
next
  fix G :: graph and seen todo :: "gene list" and v :: gene
  assume "v \<in> set seen"
  then have "(endpoints G \<union> set (v # todo)) - set seen = (endpoints G \<union> set todo) - set seen"
    by auto
  then show "((G, seen, todo), (G, seen, v # todo))
        \<in> inv_image (less_than <*lex*> less_than)
          (\<lambda>(G, seen, todo). (card ((endpoints G \<union> set todo) - set seen), length todo))"
    by simp
next
  fix G :: graph and seen todo :: "gene list" and v :: gene
  assume v: "v \<notin> set seen"
  have fin: "finite ((endpoints G \<union> set (v # todo)) - set seen)"
    by (simp add: endpoints_def)
  have "set (neighbors G v) \<subseteq> endpoints G"
    by (auto simp: neighbors_def endpoints_def split: if_splits)
  then have "(endpoints G \<union> set (todo @ neighbors G v)) - set (seen @ [v])
          \<subset> (endpoints G \<union> set (v # todo)) - set seen"
    using v by auto
  then have "card ((endpoints G \<union> set (todo @ neighbors G v)) - set (seen @ [v]))
          < card ((endpoints G \<union> set (v # todo)) - set seen)"
    using fin by (rule psubset_card_mono [rotated])
  then show "((G, seen @ [v], todo @ neighbors G v), (G, seen, v # todo))
        \<in> inv_image (less_than <*lex*> less_than)
          (\<lambda>(G, seen, todo). (card ((endpoints G \<union> set todo) - set seen), length todo))"
    by simp
qed

text \<open>
  Modelled from the spec: the component of one node, the nodes reachable from it.
\<close>

definition plain_bfs :: "graph \<Rightarrow> gene \<Rightarrow> gene list" where
  "plain_bfs G source = plain_bfs_loop G [] [source]"

text \<open>
  Modelled from the spec: the enumeration of the components by \<open>nx.connected_components\<close>.
  It walks the nodes in the graph's iteration order and yields the component of every
  node that is in no component yielded before.
\<close>

fun components_from :: "graph \<Rightarrow> gene list \<Rightarrow> gene list \<Rightarrow> gene list list" where
  "components_from G seen [] = []"
| "components_from G seen (v # vs) =
     (if v \<in> set seen then components_from G seen vs
      else plain_bfs G v # components_from G (seen @ plain_bfs G v) vs)"

text \<open>
  Modelled from the spec: \<open>nx.connected_components(orthology_undirected)\<close>.
\<close>

definition connected_components :: "graph \<Rightarrow> gene list list" where
  "connected_components G = components_from G [] (nodes_of G)"

text \<open>
  The library yields each component as a set, and cell 11 scans a set in an order of
  the interpreter's choosing. A scan of the components is therefore any list of lists
  that has the same sets, component by component.
\<close>

definition scan_of :: "graph \<Rightarrow> gene list list \<Rightarrow> bool" where
  "scan_of G comps \<longleftrightarrow> map set comps = map set (connected_components G)"

section \<open>Construction of the equivalence classes (cell 11)\<close>

text \<open>
  \<^verbatim>\<open>index2component = {}\<close>

  \<^verbatim>\<open>member2index = {}\<close>

  \<^verbatim>\<open>index2mgi = {}\<close>

  \<^verbatim>\<open>for i, component in enumerate(nx.connected_components(orthology_undirected)):\<close>

  \<^verbatim>\<open>    index2component[i] = component\<close>

  \<^verbatim>\<open>    for function, namespace, name in component:\<close>

  \<^verbatim>\<open>        member2index[function, namespace, name] = i\<close>

  \<^verbatim>\<open>        if 'MGI' == namespace:\<close>

  \<^verbatim>\<open>            index2mgi[i] = function, namespace, name\<close>

  The three dictionaries are the fields of \<open>classes\<close>. \<open>scan_component\<close> is the inner loop
  over the members of one component, in the order given; \<open>enumerate_components\<close> is the
  outer loop, which counts the components from \<open>i\<close>.
\<close>

record classes =
  index2component :: "nat \<rightharpoonup> gene list"
  member2index :: "gene \<rightharpoonup> nat"
  index2mgi :: "nat \<rightharpoonup> gene"

fun scan_component :: "nat \<Rightarrow> gene list \<Rightarrow> classes \<Rightarrow> classes" where
  "scan_component i [] st = st"
| "scan_component i ((fn, namespace, name) # rest) st =
     (let st1 = st\<lparr>member2index := (member2index st)((fn, namespace, name) \<mapsto> i)\<rparr>;
          st2 = (if ''MGI'' = namespace
                 then st1\<lparr>index2mgi := (index2mgi st1)(i \<mapsto> (fn, namespace, name))\<rparr>
                 else st1)
      in scan_component i rest st2)"

fun enumerate_components :: "nat \<Rightarrow> gene list list \<Rightarrow> classes \<Rightarrow> classes" where
  "enumerate_components i [] st = st"
| "enumerate_components i (component # rest) st =
     enumerate_components (Suc i) rest
       (scan_component i component
          (st\<lparr>index2component := (index2component st)(i \<mapsto> component)\<rparr>))"

definition build_classes :: "gene list list \<Rightarrow> classes" where
  "build_classes comps =
     enumerate_components 0 comps
       \<lparr>index2component = Map.empty, member2index = Map.empty, index2mgi = Map.empty\<rparr>"

section \<open>Construction of the mapping (cell 12)\<close>

text \<open>
  \<^verbatim>\<open>mapping = {}\<close>

  \<^verbatim>\<open>for function, namepace, name in orthology_undirected:\<close>

  \<^verbatim>\<open>    if (function, namepace, name) not in member2index:\<close>

  \<^verbatim>\<open>        continue\<close>

  \<^verbatim>\<open>    index = member2index[function, namepace, name]\<close>

  \<^verbatim>\<open>    if index not in index2mgi:\<close>

  \<^verbatim>\<open>        continue\<close>

  \<^verbatim>\<open>    mapping[function, namepace, name] = index2mgi[index]\<close>

  The loop runs over the nodes of the undirected orthology graph. Each of the two
  \<open>continue\<close> branches is the \<open>None\<close> case of a lookup. \<open>canonical_mapping\<close> is the mapping
  that cells 11 and 12 build from a graph and a scan of its components.
\<close>

fun build_mapping :: "gene list \<Rightarrow> classes \<Rightarrow> (gene \<rightharpoonup> gene) \<Rightarrow> (gene \<rightharpoonup> gene)" where
  "build_mapping [] st mapping = mapping"
| "build_mapping (n # rest) st mapping =
     (case member2index st n of
        None \<Rightarrow> build_mapping rest st mapping
      | Some index \<Rightarrow>
          (case index2mgi st index of
             None \<Rightarrow> build_mapping rest st mapping
           | Some r \<Rightarrow> build_mapping rest st (mapping(n \<mapsto> r))))"

definition canonical_mapping :: "graph \<Rightarrow> gene list list \<Rightarrow> (gene \<rightharpoonup> gene)" where
  "canonical_mapping G comps = build_mapping (nodes_of G) (build_classes comps) Map.empty"

section \<open>Application to the corpus (cells 17 and 18)\<close>

datatype error = KeyError | NetworkXUnfeasible

text \<open>
  Cell 17:

  \<^verbatim>\<open>for name, data in g.nodes_iter(data=True):\<close>

  \<^verbatim>\<open>    if data['type'] in ('Gene','RNA','Protein') and name in mapping:\<close>

  \<^verbatim>\<open>        g.node[name].update(orthology_undirected.node[mapping[name]])\<close>

  The dictionary \<open>data\<close> that the loop receives is the node's own attribute dictionary
  \<open>g.node[name]\<close>, so the update changes the entry of \<open>name\<close> and no other. Reading
  \<open>data['type']\<close> and \<open>orthology_undirected.node[...]\<close> raises \<open>KeyError\<close> when the key is
  missing, and \<open>data['type']\<close> is read before the mapping is tested.
\<close>

fun map_node_data ::
  "graph \<Rightarrow> (gene \<rightharpoonup> gene) \<Rightarrow> (gene \<times> attrs) list \<Rightarrow> error + (gene \<times> attrs) list" where
  "map_node_data orth mapping [] = Inr []"
| "map_node_data orth mapping ((name, data) # rest) =
     (case data ''type'' of
        None \<Rightarrow> Inl KeyError
      | Some t \<Rightarrow>
          if t \<in> set [''Gene'', ''RNA'', ''Protein''] \<and> mapping name \<noteq> None
          then (case map_of (node orth) (the (mapping name)) of
                  None \<Rightarrow> Inl KeyError
                | Some a \<Rightarrow>
                    (case map_node_data orth mapping rest of
                       Inl e \<Rightarrow> Inl e
                     | Inr rest' \<Rightarrow> Inr ((name, data ++ a) # rest')))
          else (case map_node_data orth mapping rest of
                  Inl e \<Rightarrow> Inl e
                | Inr rest' \<Rightarrow> Inr ((name, data) # rest')))"

text \<open>
  Cell 18 is one call into the graph library, whose code is not part of the repository:

  \<^verbatim>\<open>g_relabeled = nx.relabel_nodes(g, lambda n: mapping[n] if n in mapping else n, copy=False)\<close>

  The spec asks of the call the standard relabeling with merge: every node \<open>n\<close> is
  renamed to \<open>f(n)\<close>, the edges at a renamed node are pointed to the new name, and where
  two nodes meet under one name their attributes and their edges are merged.
\<close>

text \<open>
  Modelled from the spec: the edges of the library's graph that start at a node
  (\<open>out_edges\<close>) and that end at it (\<open>in_edges\<close>), with the key of an edge (\<open>ekey\<close>).
\<close>

definition ekey :: "(gene \<times> gene \<times> nat) \<times> attrs \<Rightarrow> nat" where
  "ekey e = snd (snd (fst e))"

definition out_edges :: "graph \<Rightarrow> gene \<Rightarrow> ((gene \<times> gene \<times> nat) \<times> attrs) list" where
  "out_edges G n = filter (\<lambda>e. src e = n) (edge G)"

definition in_edges :: "graph \<Rightarrow> gene \<Rightarrow> ((gene \<times> gene \<times> nat) \<times> attrs) list" where
  "in_edges G n = filter (\<lambda>e. tgt e = n) (edge G)"

text \<open>
  Modelled from the spec: the renaming of one node by \<open>nx.relabel_nodes\<close>. A node that
  the renaming leaves alone or maps to itself is skipped. Otherwise the new name is
  added with the old node's attributes (which updates the attributes of a node of that
  name), the old node's outgoing and incoming edges are collected under the new name,
  the old node is removed and the collected edges are added. Renaming a node that the
  graph does not have is a \<open>KeyError\<close>.
\<close>

definition relabel_step :: "(gene \<rightharpoonup> gene) \<Rightarrow> gene \<Rightarrow> graph \<Rightarrow> error + graph" where
  "relabel_step m old G =
     (case m old of
        None \<Rightarrow> Inr G
      | Some new \<Rightarrow>
          if new = old then Inr G
          else (case map_of (node G) old of
                  None \<Rightarrow> Inl KeyError
                | Some a \<Rightarrow>
                    let G1 = add_node new a G;
                        new_edges =
                          map (\<lambda>e. ((new, if old = tgt e then new else tgt e, ekey e), snd e))
                            (out_edges G1 old) @
                          map (\<lambda>e. ((if old = src e then new else src e, new, ekey e), snd e))
                            (in_edges G1 old)
                    in Inr (add_edges_from new_edges (remove_node old G1))))"

text \<open>
  Modelled from the spec: the renaming in place, one node after the other in the order
  given.
\<close>

fun relabel_inplace :: "(gene \<rightharpoonup> gene) \<Rightarrow> gene list \<Rightarrow> graph \<Rightarrow> error + graph" where
  "relabel_inplace m [] G = Inr G"
| "relabel_inplace m (old # rest) G =
     (case relabel_step m old G of
        Inl e \<Rightarrow> Inl e
      | Inr G' \<Rightarrow> relabel_inplace m rest G')"

text \<open>
  Modelled from the spec: the test for a renaming whose renamings chain in a cycle. The
  spec names no failure of the relabeling. The library refuses such a renaming in place
  with \<open>NetworkXUnfeasible\<close>, and the model keeps the refusal, so that a result is stated
  only where the library gives one. \<open>chain_reaches\<close> follows the renamings from a node for
  a bounded number of steps; \<open>has_cycle\<close> asks whether some node is reached from itself.
\<close>

fun chain_reaches :: "(gene \<rightharpoonup> gene) \<Rightarrow> nat \<Rightarrow> gene \<Rightarrow> gene \<Rightarrow> bool" where
  "chain_reaches m 0 cur target = False"
| "chain_reaches m (Suc fuel) cur target =
     (case m cur of
        None \<Rightarrow> False
      | Some nxt \<Rightarrow> nxt \<noteq> cur \<and> (nxt = target \<or> chain_reaches m fuel nxt target))"

definition has_cycle :: "(gene \<rightharpoonup> gene) \<Rightarrow> gene list \<Rightarrow> bool" where
  "has_cycle m ns = (\<exists>n\<in>set ns. chain_reaches m (length ns) n n)"

text \<open>
  Modelled from the spec: \<open>nx.relabel_nodes(G, mapping, copy=False)\<close> for a function
  \<open>mapping\<close>. The library tabulates the function over the nodes of the graph and renames
  in place. The order in which it takes the nodes is its own choice (the iteration order
  of a set, or an order in which no node is renamed before its new name is); it is the
  parameter \<open>order\<close> of the model.
\<close>

definition relabel_nodes :: "gene list \<Rightarrow> (gene \<Rightarrow> gene) \<Rightarrow> graph \<Rightarrow> error + graph" where
  "relabel_nodes order mapping G =
     (let m = map_of (map (\<lambda>n. (n, mapping n)) (nodes_of G))
      in if has_cycle m (nodes_of G) then Inl NetworkXUnfeasible
         else relabel_inplace m order G)"

text \<open>
  The function that cell 18 hands to the library is
  \<^verbatim>\<open>lambda n: mapping[n] if n in mapping else n\<close>. Cells 17 and 18 together are
  \<open>apply_mapping\<close>: the attribute update, then the relabeling of the updated graph.
\<close>

definition relabel_name :: "(gene \<rightharpoonup> gene) \<Rightarrow> gene \<Rightarrow> gene" where
  "relabel_name mapping n = (if mapping n \<noteq> None then the (mapping n) else n)"

definition apply_mapping ::
  "gene list \<Rightarrow> graph \<Rightarrow> (gene \<rightharpoonup> gene) \<Rightarrow> graph \<Rightarrow> error + graph" where
  "apply_mapping order orth mapping g =
     (case map_node_data orth mapping (node g) of
        Inl e \<Rightarrow> Inl e
      | Inr node_data \<Rightarrow> relabel_nodes order (relabel_name mapping) (g\<lparr>node := node_data\<rparr>))"

section \<open>Notions used to state the properties\<close>

text \<open>
  An identifier is in the reference namespace when its namespace is MGI, the test of
  cell 11. \<open>last_mgi c\<close> is the last such member of a scan \<open>c\<close>, when there is one.
\<close>

definition is_mgi :: "gene \<Rightarrow> bool" where
  "is_mgi n \<longleftrightarrow> fst (snd n) = ''MGI''"

definition last_mgi :: "gene list \<Rightarrow> gene option" where
  "last_mgi c = (case filter is_mgi c of [] \<Rightarrow> None | x # xs \<Rightarrow> Some (last (x # xs)))"

text \<open>
  Two nodes are connected when a path of edges, each read in either direction, leads
  from one to the other.
\<close>

definition connected :: "graph \<Rightarrow> (gene \<times> gene) set" where
  "connected G = (adjacent G)\<^sup>*"

text \<open>
  Python's \<open>m.get(k, d)\<close>.
\<close>

definition dict_get :: "('k \<rightharpoonup> 'v) \<Rightarrow> 'k \<Rightarrow> 'v \<Rightarrow> 'v" where
  "dict_get m k d = (case m k of None \<Rightarrow> d | Some v \<Rightarrow> v)"

text \<open>
  The edge keys \<open>(u, v, key)\<close> of a graph, an edge key with both ends renamed, and the
  edge keys at a node.
\<close>

definition keys_of :: "graph \<Rightarrow> (gene \<times> gene \<times> nat) set" where
  "keys_of G = fst ` set (edge G)"

definition rename_key :: "(gene \<Rightarrow> gene) \<Rightarrow> gene \<times> gene \<times> nat \<Rightarrow> gene \<times> gene \<times> nat" where
  "rename_key f k = (f (fst k), f (fst (snd k)), snd (snd k))"

definition incident :: "graph \<Rightarrow> gene \<Rightarrow> (gene \<times> gene \<times> nat) set" where
  "incident G n = {k \<in> keys_of G. fst k = n \<or> fst (snd k) = n}"

text \<open>
  The attribute dictionary that cell 17 leaves at a node: the node's own, updated with
  the attributes of the orthology node it is mapped to when the node's \<open>type\<close> is Gene,
  RNA or Protein and the node is a key of the mapping.
\<close>

definition node_data_after :: "graph \<Rightarrow> (gene \<rightharpoonup> gene) \<Rightarrow> gene \<Rightarrow> attrs \<Rightarrow> attrs" where
  "node_data_after orth mapping name data =
     (case data ''type'' of
        None \<Rightarrow> data
      | Some t \<Rightarrow>
          if t \<in> set [''Gene'', ''RNA'', ''Protein''] \<and> mapping name \<noteq> None
          then (case map_of (node orth) (the (mapping name)) of
                  None \<Rightarrow> data
                | Some a \<Rightarrow> data ++ a)
          else data)"

section \<open>Notions used in the proofs\<close>

text \<open>
  A list of sets is disjoint when no set meets a later one.
\<close>

fun disjoint_list :: "'a set list \<Rightarrow> bool" where
  "disjoint_list [] = True"
| "disjoint_list (A # As) = (A \<inter> \<Union>(set As) = {} \<and> disjoint_list As)"

text \<open>
  The renaming of one node; the renaming that a run of the relabeling over the nodes of
  \<open>order\<close> amounts to; the attribute dictionaries after such a run; and the condition
  under which the order of the run does not matter: no new name is renamed itself.
\<close>

definition rename1 :: "gene \<Rightarrow> gene \<Rightarrow> gene \<Rightarrow> gene" where
  "rename1 old new x = (if x = old then new else x)"

definition renaming :: "(gene \<rightharpoonup> gene) \<Rightarrow> gene list \<Rightarrow> gene \<Rightarrow> gene" where
  "renaming m order x = (if x \<in> set order then dict_get m x x else x)"

fun relabel_attrs :: "(gene \<rightharpoonup> gene) \<Rightarrow> gene list \<Rightarrow> (gene \<rightharpoonup> attrs) \<Rightarrow> (gene \<rightharpoonup> attrs)" where
  "relabel_attrs m [] A = A"
| "relabel_attrs m (old # rest) A =
     (case m old of
        None \<Rightarrow> relabel_attrs m rest A
      | Some new \<Rightarrow>
          if new = old then relabel_attrs m rest A
          else (case A old of
                  None \<Rightarrow> A
                | Some a \<Rightarrow>
                    relabel_attrs m rest
                      (A(new \<mapsto> (case A new of None \<Rightarrow> a | Some b \<Rightarrow> b ++ a), old := None))))"

definition targets_fixed :: "(gene \<rightharpoonup> gene) \<Rightarrow> bool" where
  "targets_fixed m \<longleftrightarrow> (\<forall>x new. m x = Some new \<longrightarrow> new \<noteq> x \<longrightarrow> m new = None \<or> m new = Some new)"

text \<open>
  The data of the edges of \<open>G'\<close> are merged from those of \<open>G\<close> along a renaming
  \<open>f\<close>: every edge of \<open>G\<close> is found in \<open>G'\<close> under its renamed triple, with at least its
  own data keys, and every data entry of an edge of \<open>G'\<close> is an entry of an edge of
  \<open>G\<close> that is renamed to it.
\<close>

definition edges_merged :: "(gene \<Rightarrow> gene) \<Rightarrow> graph \<Rightarrow> graph \<Rightarrow> bool" where
  "edges_merged f G G' \<longleftrightarrow>
     (\<forall>k d. map_of (edge G) k = Some d \<longrightarrow>
        (\<exists>d'. map_of (edge G') (rename_key f k) = Some d' \<and> dom d \<subseteq> dom d')) \<and>
     (\<forall>k' d' key val. map_of (edge G') k' = Some d' \<and> d' key = Some val \<longrightarrow>
        (\<exists>k d. map_of (edge G) k = Some d \<and> rename_key f k = k' \<and> d key = Some val))"

section \<open>Example graphs\<close>

text \<open>
  The identifiers and edges of the spec's examples: TP53 (HGNC), Trp53 (MGI) and Tp53
  (RGD) in one component; a component with two MGI members; a component without an MGI
  member.
\<close>

definition hgnc_TP53 :: gene where "hgnc_TP53 = (''Gene'', ''HGNC'', ''TP53'')"

definition mgi_Trp53 :: gene where "mgi_Trp53 = (''Gene'', ''MGI'', ''Trp53'')"

definition rgd_Tp53 :: gene where "rgd_Tp53 = (''Gene'', ''RGD'', ''Tp53'')"

definition mgi_Trp53_ps :: gene where "mgi_Trp53_ps = (''Gene'', ''MGI'', ''Trp53-ps'')"

definition hgnc_FOO :: gene where "hgnc_FOO = (''Gene'', ''HGNC'', ''FOO'')"

definition rgd_Foo :: gene where "rgd_Foo = (''Gene'', ''RGD'', ''Foo'')"

definition example_edges :: "(gene \<times> gene) list" where
  "example_edges = [(hgnc_TP53, mgi_Trp53), (mgi_Trp53, rgd_Tp53)]"

definition example_orthology :: graph where
  "example_orthology = graph_of_edges example_edges empty_graph"

definition two_mgi_edges :: "(gene \<times> gene) list" where
  "two_mgi_edges = [(hgnc_TP53, mgi_Trp53), (hgnc_TP53, mgi_Trp53_ps)]"

definition no_mgi_edges :: "(gene \<times> gene) list" where
  "no_mgi_edges = [(hgnc_FOO, rgd_Foo)]"

text \<open>
  An orthology graph and three target graphs with attributes: in \<open>example_corpus\<close> one
  node is a key of the mapping, in \<open>colliding_corpus\<close> two nodes are mapped to the same
  identifier, in \<open>parallel_corpus\<close> two such nodes have each an edge to the same node with
  the same key, and each a \<open>label\<close>.
\<close>

definition example_orthology_data :: graph where
  "example_orthology_data =
     \<lparr>node = [(hgnc_TP53, [''type'' \<mapsto> ''Gene'', ''namespace'' \<mapsto> ''HGNC'']),
              (mgi_Trp53, [''type'' \<mapsto> ''Gene'', ''namespace'' \<mapsto> ''MGI'']),
              (rgd_Tp53, [''type'' \<mapsto> ''Gene'', ''namespace'' \<mapsto> ''RGD''])],
      edge = [((hgnc_TP53, mgi_Trp53, 0), [''relation'' \<mapsto> ''orthologous'']),
              ((mgi_Trp53, rgd_Tp53, 0), [''relation'' \<mapsto> ''orthologous''])]\<rparr>"

definition example_corpus :: graph where
  "example_corpus =
     \<lparr>node = [(hgnc_TP53, [''type'' \<mapsto> ''Gene'']), (hgnc_FOO, [''type'' \<mapsto> ''Gene''])],
      edge = [((hgnc_TP53, hgnc_FOO, 0), [''relation'' \<mapsto> ''increases''])]\<rparr>"

definition colliding_corpus :: graph where
  "colliding_corpus =
     \<lparr>node = [(hgnc_TP53, [''type'' \<mapsto> ''Gene'', ''label'' \<mapsto> ''human'']),
              (rgd_Tp53, [''type'' \<mapsto> ''Gene'']),
              (hgnc_FOO, [''type'' \<mapsto> ''Gene''])],
      edge = [((hgnc_TP53, hgnc_FOO, 0), [''relation'' \<mapsto> ''increases'']),
              ((hgnc_FOO, rgd_Tp53, 0), [''relation'' \<mapsto> ''decreases''])]\<rparr>"

definition parallel_corpus :: graph where
  "parallel_corpus =
     \<lparr>node = [(hgnc_TP53, [''type'' \<mapsto> ''Gene'', ''label'' \<mapsto> ''human'']),
              (rgd_Tp53, [''type'' \<mapsto> ''Gene'', ''label'' \<mapsto> ''rat'']),
              (hgnc_FOO, [''type'' \<mapsto> ''Gene''])],
      edge = [((hgnc_TP53, hgnc_FOO, 0), [''relation'' \<mapsto> ''increases'']),
              ((rgd_Tp53, hgnc_FOO, 0), [''relation'' \<mapsto> ''decreases''])]\<rparr>"

text \<open>
  An orthology graph that relates two complexes, and a target graph with the node of
  one of them, whose \<open>type\<close> is Complex.
\<close>

definition hgnc_CX :: gene where "hgnc_CX = (''Complex'', ''HGNC'', ''CX'')"

definition mgi_Cx :: gene where "mgi_Cx = (''Complex'', ''MGI'', ''Cx'')"

definition complex_orthology :: graph where
  "complex_orthology =
     \<lparr>node = [(hgnc_CX, [''type'' \<mapsto> ''Complex'']), (mgi_Cx, [''type'' \<mapsto> ''Complex''])],
      edge = [((hgnc_CX, mgi_Cx, 0), Map.empty)]\<rparr>"

definition complex_corpus :: graph where
  "complex_corpus = \<lparr>node = [(hgnc_CX, [''type'' \<mapsto> ''Complex''])], edge = []\<rparr>"

section \<open>Properties\<close>

subsection \<open>Neighbours\<close>

lemma set_neighbors_endpoints: "set (neighbors G v) \<subseteq> endpoints G"
  by (auto simp: neighbors_def endpoints_def split: if_splits)

subsection \<open>The loops of cells 11 and 12 on an arbitrary list of components\<close>

lemma last_mgi_Nil: "last_mgi [] = None"
  by (simp add: last_mgi_def)

lemma last_mgi_Cons:
  "last_mgi (x # c) = (case last_mgi c of Some r \<Rightarrow> Some r | None \<Rightarrow> if is_mgi x then Some x else None)"
  by (simp add: last_mgi_def split: list.splits)

lemma last_mgi_Some: "last_mgi c = Some r \<Longrightarrow> r \<in> set c \<and> is_mgi r"
proof -
  assume "last_mgi c = Some r"
  then have ne: "filter is_mgi c \<noteq> []" and r: "r = last (filter is_mgi c)"
    by (auto simp: last_mgi_def split: list.splits)
  from ne have "last (filter is_mgi c) \<in> set (filter is_mgi c)" by (rule last_in_set)
  with r show ?thesis by simp
qed

lemma last_mgi_None: "last_mgi c = None \<longleftrightarrow> (\<forall>m \<in> set c. \<not> is_mgi m)"
proof -
  have "last_mgi c = None \<longleftrightarrow> filter is_mgi c = []"
    by (simp add: last_mgi_def split: list.splits)
  then show ?thesis by (simp add: filter_empty_conv)
qed

lemma scan_component_index2component:
  "index2component (scan_component i c st) = index2component st"
  by (induction i c st rule: scan_component.induct) (auto simp: Let_def)

lemma scan_component_member2index:
  "member2index (scan_component i c st) m = (if m \<in> set c then Some i else member2index st m)"
  by (induction i c st rule: scan_component.induct) (auto simp: Let_def)

lemma scan_component_index2mgi:
  "index2mgi (scan_component i c st) k =
     (if k = i then (case last_mgi c of None \<Rightarrow> index2mgi st i | Some r \<Rightarrow> Some r)
      else index2mgi st k)"
  by (induction i c st rule: scan_component.induct)
     (auto simp: Let_def last_mgi_Nil last_mgi_Cons is_mgi_def split: option.splits)

lemma enumerate_member2index_other:
  "m \<notin> \<Union>(set ` set comps) \<Longrightarrow> member2index (enumerate_components i comps st) m = member2index st m"
  by (induction comps arbitrary: i st) (auto simp: scan_component_member2index)

lemma enumerate_member2index_Some:
  "member2index (enumerate_components i comps st) m = Some k \<Longrightarrow>
     member2index st m = Some k \<or> (i \<le> k \<and> k < i + length comps \<and> m \<in> set (comps ! (k - i)))"
proof (induction comps arbitrary: i st)
  case Nil
  then show ?case by simp
next
  case (Cons c comps)
  from Cons.prems have
    "member2index (enumerate_components (Suc i) comps
        (scan_component i c (st\<lparr>index2component := (index2component st)(i \<mapsto> c)\<rparr>))) m = Some k"
    by simp
  from Cons.IH [OF this] show ?case
    by (auto simp: scan_component_member2index nth_Cons' Suc_diff_le split: if_splits)
qed

lemma enumerate_member2index_disjoint:
  "disjoint_list (map set comps) \<Longrightarrow> j < length comps \<Longrightarrow> m \<in> set (comps ! j) \<Longrightarrow>
     member2index (enumerate_components i comps st) m = Some (i + j)"
proof (induction comps arbitrary: i j st)
  case Nil
  then show ?case by simp
next
  case (Cons c comps)
  show ?case
  proof (cases j)
    case 0
    with Cons.prems have "m \<in> set c" and "m \<notin> \<Union>(set ` set comps)" by auto
    then show ?thesis using 0
      by (simp add: enumerate_member2index_other scan_component_member2index)
  next
    case (Suc j')
    with Cons.prems have "disjoint_list (map set comps)" "j' < length comps" "m \<in> set (comps ! j')"
      by auto
    from Cons.IH [OF this] show ?thesis using Suc by simp
  qed
qed

lemma enumerate_index2mgi:
  "index2mgi (enumerate_components i comps st) k =
     (if i \<le> k \<and> k < i + length comps
      then (case last_mgi (comps ! (k - i)) of None \<Rightarrow> index2mgi st k | Some r \<Rightarrow> Some r)
      else index2mgi st k)"
proof (induction comps arbitrary: i st)
  case Nil
  then show ?case by auto
next
  case (Cons c comps)
  show ?case
    by (auto simp: Cons.IH scan_component_index2mgi nth_Cons' Suc_diff_le split: option.splits)
qed

lemma build_mapping_eq:
  "build_mapping ns st mp n =
     (if n \<in> set ns
      then (case member2index st n of None \<Rightarrow> mp n
            | Some i \<Rightarrow> (case index2mgi st i of None \<Rightarrow> mp n | Some r \<Rightarrow> Some r))
      else mp n)"
  by (induction ns arbitrary: mp) (auto split: option.splits)

subsection \<open>The search collects the nodes that can be reached\<close>

lemma set_neighbors:
  "set (neighbors G v) =
     tgt ` {e \<in> set (edge G). src e = v} \<union> src ` {e \<in> set (edge G). tgt e = v}"
  by (auto simp: neighbors_def split: if_splits)

lemma adjacent_iff:
  "(a, b) \<in> adjacent G \<longleftrightarrow>
     (\<exists>e\<in>set (edge G). src e = a \<and> tgt e = b) \<or> (\<exists>e\<in>set (edge G). src e = b \<and> tgt e = a)"
  unfolding adjacent_def set_neighbors by blast

lemma sym_adjacent: "sym (adjacent G)"
proof (rule symI)
  fix a b assume "(a, b) \<in> adjacent G"
  then show "(b, a) \<in> adjacent G" unfolding adjacent_iff by blast
qed

lemma sym_connected: "sym (connected G)"
  unfolding connected_def by (rule sym_rtrancl [OF sym_adjacent])

lemma trans_connected: "trans (connected G)"
  unfolding connected_def by (rule trans_rtrancl)

lemma refl_connected: "(a, a) \<in> connected G"
  by (simp add: connected_def)

lemma connected_Image_step:
  "connected G `` {v} = insert v (connected G `` set (neighbors G v))"
proof -
  have "\<And>z. (v, z) \<in> (adjacent G)\<^sup>* \<longleftrightarrow> z = v \<or> (\<exists>y. (v, y) \<in> adjacent G \<and> (y, z) \<in> (adjacent G)\<^sup>*)"
  proof -
    fix z
    show "(v, z) \<in> (adjacent G)\<^sup>* \<longleftrightarrow> z = v \<or> (\<exists>y. (v, y) \<in> adjacent G \<and> (y, z) \<in> (adjacent G)\<^sup>*)"
    proof
      assume "(v, z) \<in> (adjacent G)\<^sup>*"
      then show "z = v \<or> (\<exists>y. (v, y) \<in> adjacent G \<and> (y, z) \<in> (adjacent G)\<^sup>*)"
        by (cases rule: converse_rtranclE) auto
    next
      assume "z = v \<or> (\<exists>y. (v, y) \<in> adjacent G \<and> (y, z) \<in> (adjacent G)\<^sup>*)"
      then show "(v, z) \<in> (adjacent G)\<^sup>*"
        by (auto intro: converse_rtrancl_into_rtrancl)
    qed
  qed
  note step = this
  have adj: "\<And>y. (v, y) \<in> adjacent G \<longleftrightarrow> y \<in> set (neighbors G v)"
    by (simp add: adjacent_def)
  show ?thesis
    unfolding connected_def using step adj by blast
qed

lemma closed_seen_reach:
  assumes inv: "\<forall>x\<in>set seen. set (neighbors G x) \<subseteq> set seen \<union> set todo"
    and x: "x \<in> set seen" and xz: "(x, z) \<in> connected G"
  shows "z \<in> set seen \<union> connected G `` set todo"
  using xz unfolding connected_def
proof (induction rule: rtrancl_induct)
  case base
  then show ?case using x by simp
next
  case (step y z)
  from step.IH show ?case
  proof
    assume "y \<in> set seen"
    with inv step.hyps(2) have "z \<in> set seen \<union> set todo" by (auto simp: adjacent_def)
    then show ?thesis by (auto simp: connected_def)
  next
    assume "y \<in> (adjacent G)\<^sup>* `` set todo"
    with step.hyps(2) show ?thesis by (auto intro: rtrancl_into_rtrancl)
  qed
qed

lemma set_plain_bfs_loop:
  "\<forall>x\<in>set seen. set (neighbors G x) \<subseteq> set seen \<union> set todo \<Longrightarrow>
     set (plain_bfs_loop G seen todo) = set seen \<union> connected G `` set todo"
proof (induction G seen todo rule: plain_bfs_loop.induct)
  case (1 G seen)
  then show ?case by simp
next
  case (2 G seen v todo)
  show ?case
  proof (cases "v \<in> set seen")
    case True
    with "2.prems" have inv: "\<forall>x\<in>set seen. set (neighbors G x) \<subseteq> set seen \<union> set todo"
      by auto
    have "connected G `` {v} \<subseteq> set seen \<union> connected G `` set todo"
      using closed_seen_reach [OF inv True] by auto
    with "2.IH"(1) [OF True inv] True show ?thesis by auto
  next
    case False
    from "2.prems" have inv:
      "\<forall>x\<in>set (seen @ [v]). set (neighbors G x) \<subseteq> set (seen @ [v]) \<union> set (todo @ neighbors G v)"
      by auto
    have "set (plain_bfs_loop G seen (v # todo)) =
            set (seen @ [v]) \<union> connected G `` set (todo @ neighbors G v)"
      using "2.IH"(2) [OF False inv] False by simp
    also have "\<dots> = set seen \<union> (connected G `` {v} \<union> connected G `` set todo)"
      by (auto simp: connected_Image_step [of G v])
    finally show ?thesis by auto
  qed
qed

lemma set_plain_bfs: "set (plain_bfs G v) = connected G `` {v}"
proof -
  have "set (plain_bfs_loop G [] [v]) = set [] \<union> connected G `` set [v]"
    by (rule set_plain_bfs_loop) simp
  then show ?thesis
    by (simp add: plain_bfs_def del: plain_bfs_loop.simps)
qed

subsection \<open>The components are the classes of reachability\<close>

lemma sym_closed_disjoint:
  assumes "sym R" and "R `` S \<subseteq> S"
  shows "R `` (A - S) \<inter> S = {}"
proof -
  have "False" if "a \<notin> S" and "(a, z) \<in> R" and "z \<in> S" for a z
  proof -
    from \<open>sym R\<close> that(2) have "(z, a) \<in> R" by (rule symD)
    with that(3) have "a \<in> R `` S" by blast
    with assms(2) that(1) show False by blast
  qed
  then show ?thesis by blast
qed

lemma trans_Image_Image: "trans R \<Longrightarrow> R `` (R `` A) \<subseteq> R `` A"
  by (meson ImageE ImageI subsetI transD)

lemma class_absorb:
  assumes "trans R" and "refl R"
  shows "R `` A \<subseteq> R `` {v} \<union> R `` (A - R `` {v})"
proof
  fix z assume "z \<in> R `` A"
  then obtain x where x: "x \<in> A" and xz: "(x, z) \<in> R" by blast
  show "z \<in> R `` {v} \<union> R `` (A - R `` {v})"
  proof (cases "x \<in> R `` {v}")
    case True
    then have "(v, x) \<in> R" by simp
    with \<open>trans R\<close> xz have "(v, z) \<in> R" by (meson transD)
    then show ?thesis by blast
  next
    case False
    with x xz show ?thesis by blast
  qed
qed

lemma refl_connected': "refl (connected G)"
  by (simp add: refl_on_def refl_connected)

lemma components_from_props:
  assumes "connected G `` set seen \<subseteq> set seen"
  shows "disjoint_list (map set (components_from G seen vs)) \<and>
         \<Union>(set ` set (components_from G seen vs)) = connected G `` (set vs - set seen)"
  using assms
proof (induction vs arbitrary: seen)
  case Nil
  then show ?case by simp
next
  case (Cons v vs)
  show ?case
  proof (cases "v \<in> set seen")
    case True
    then have "set (v # vs) - set seen = set vs - set seen" by auto
    with Cons.IH [OF Cons.prems] True show ?thesis by simp
  next
    case False
    let ?R = "connected G"
    let ?c = "plain_bfs G v"
    let ?seen' = "seen @ ?c"
    have c: "set ?c = ?R `` {v}" by (rule set_plain_bfs)
    have "?R `` (?R `` {v}) \<subseteq> ?R `` {v}"
      by (rule trans_Image_Image [OF trans_connected])
    with Cons.prems have closed': "?R `` set ?seen' \<subseteq> set ?seen'"
      by (auto simp: c Image_Un)
    from Cons.IH [OF closed'] have
      dl: "disjoint_list (map set (components_from G ?seen' vs))" and
      un: "\<Union>(set ` set (components_from G ?seen' vs)) = ?R `` (set vs - set ?seen')"
      by simp_all
    have "?R `` (set vs - set ?seen') \<inter> set ?seen' = {}"
      by (rule sym_closed_disjoint [OF sym_connected closed'])
    then have disj: "set ?c \<inter> \<Union>(set ` set (components_from G ?seen' vs)) = {}"
      unfolding un by auto
    have split: "set (v # vs) - set seen = insert v (set vs - set seen)"
      using False by auto
    have "?R `` (set vs - set seen) \<subseteq> ?R `` {v} \<union> ?R `` ((set vs - set seen) - ?R `` {v})"
      by (rule class_absorb [OF trans_connected refl_connected'])
    moreover have "(set vs - set seen) - ?R `` {v} = set vs - set ?seen'"
      by (auto simp: c)
    ultimately have "?R `` {v} \<union> ?R `` (set vs - set ?seen') = ?R `` (set (v # vs) - set seen)"
      unfolding split by blast
    with dl un disj False show ?thesis
      by (simp add: c)
  qed
qed

lemma components_from_class:
  "c \<in> set (components_from G seen vs) \<Longrightarrow> \<exists>v\<in>set vs. set c = connected G `` {v}"
  by (induction vs arbitrary: seen) (auto simp: set_plain_bfs split: if_splits)

lemma connected_class_eq:
  assumes "(v, w) \<in> connected G"
  shows "connected G `` {w} = connected G `` {v}"
proof -
  from sym_connected assms have "(w, v) \<in> connected G" by (rule symD)
  with assms trans_connected [of G] show ?thesis
    by (meson Image_singleton_iff transD set_eqI)
qed

subsection \<open>Graphs built from edges\<close>

lemma src_simp: "src ((u, v, k), d) = u"
  by (simp add: src_def)

lemma tgt_simp: "tgt ((u, v, k), d) = v"
  by (simp add: tgt_def)

lemma nodes_of_edge_update: "nodes_of (G\<lparr>edge := es\<rparr>) = nodes_of G"
  by (simp add: nodes_of_def)

lemma nodes_of_ensure_node: "set (nodes_of (ensure_node n G)) = insert n (set (nodes_of G))"
  unfolding ensure_node_def nodes_of_def by (simp add: insert_absorb)

lemma edge_ensure_node: "edge (ensure_node n G) = edge G"
  by (simp add: ensure_node_def)

lemma distinct_ensure_node:
  "distinct (map fst (node G)) \<Longrightarrow> distinct (map fst (node (ensure_node n G)))"
  unfolding ensure_node_def nodes_of_def by simp

lemma map_of_ensure_node:
  "map_of (node (ensure_node n G)) x =
     (if x = n \<and> n \<notin> set (nodes_of G) then Some Map.empty else map_of (node G) x)"
proof (cases "n \<in> set (nodes_of G)")
  case True
  then show ?thesis by (simp add: ensure_node_def)
next
  case False
  then have "map_of (node G) n = None"
    by (simp add: nodes_of_def map_of_eq_None_iff)
  with False show ?thesis
    by (simp add: ensure_node_def map_add_def split: option.splits)
qed

lemma nodes_of_add_edge:
  "set (nodes_of (add_edge u v key d G)) = insert u (insert v (set (nodes_of G)))"
  unfolding add_edge_def Let_def nodes_of_edge_update nodes_of_ensure_node by blast

lemma edge_keys_add_edge:
  "fst ` set (edge (add_edge u v key d G)) = insert (u, v, key) (fst ` set (edge G))"
  by (simp add: add_edge_def Let_def edge_ensure_node dom_update)

lemma node_add_edge:
  "u \<in> set (nodes_of G) \<Longrightarrow> v \<in> set (nodes_of G) \<Longrightarrow> node (add_edge u v key d G) = node G"
  by (simp add: add_edge_def Let_def ensure_node_def)

lemma endpoints_keys:
  "endpoints G = fst ` fst ` set (edge G) \<union> (fst \<circ> snd) ` fst ` set (edge G)"
  unfolding endpoints_def src_def tgt_def image_image by (simp add: comp_def)

lemma wf_graph_add_edge:
  assumes "wf_graph G"
  shows "wf_graph (add_edge u v key d G)"
proof -
  have "distinct (map fst (node (add_edge u v key d G)))"
    using assms by (simp add: add_edge_def Let_def wf_graph_def distinct_ensure_node)
  moreover have "distinct (map fst (edge (add_edge u v key d G)))"
    using assms by (simp add: add_edge_def Let_def wf_graph_def edge_ensure_node distinct_update)
  moreover have "endpoints (add_edge u v key d G) \<subseteq> set (nodes_of (add_edge u v key d G))"
  proof -
    from assms have "endpoints G \<subseteq> set (nodes_of G)" by (simp add: wf_graph_def)
    then show ?thesis
      unfolding endpoints_keys edge_keys_add_edge nodes_of_add_edge
      by (simp add: subset_insertI2)
  qed
  ultimately show ?thesis by (simp add: wf_graph_def)
qed

lemma wf_graph_empty: "wf_graph empty_graph"
  by (simp add: wf_graph_def empty_graph_def endpoints_def nodes_of_def)

lemma graph_of_edges_props:
  "wf_graph G \<Longrightarrow>
     wf_graph (graph_of_edges E G) \<and>
     set (nodes_of (graph_of_edges E G)) = set (nodes_of G) \<union> touched E"
proof (induction E G rule: graph_of_edges.induct)
  case (1 G)
  then show ?case by (simp add: touched_def)
next
  case (2 u v es G)
  from "2.IH" [OF wf_graph_add_edge [OF "2.prems"]]
  have "wf_graph (graph_of_edges ((u, v) # es) G)"
    and "set (nodes_of (graph_of_edges ((u, v) # es) G)) =
           insert u (insert v (set (nodes_of G))) \<union> touched es"
    by (simp_all add: nodes_of_add_edge)
  moreover have "touched ((u, v) # es) = insert u (insert v (touched es))"
    by (simp add: touched_def insert_commute Un_insert_left Un_insert_right)
  ultimately show ?case by simp
qed

subsection \<open>The mapping under a scan of the components\<close>

lemma disjoint_list_nth:
  "disjoint_list As \<Longrightarrow> i < length As \<Longrightarrow> j < length As \<Longrightarrow> i \<noteq> j \<Longrightarrow> As ! i \<inter> As ! j = {}"
proof (induction As arbitrary: i j)
  case Nil
  then show ?case by simp
next
  case (Cons A As)
  from Cons.prems(1) have hd: "A \<inter> \<Union>(set As) = {}" and tl: "disjoint_list As" by simp_all
  show ?case
  proof (cases i)
    case 0
    with Cons.prems obtain j' where j: "j = Suc j'" "j' < length As" by (cases j) auto
    then have "As ! j' \<in> set As" by simp
    with hd have "A \<inter> As ! j' = {}" by blast
    with 0 j show ?thesis by simp
  next
    case (Suc i')
    show ?thesis
    proof (cases j)
      case 0
      from Suc Cons.prems have "As ! i' \<in> set As" by simp
      with hd have "As ! i' \<inter> A = {}" by blast
      with 0 Suc show ?thesis by simp
    next
      case (Suc j')
      with \<open>i = Suc i'\<close> Cons.prems have "i' < length As" "j' < length As" "i' \<noteq> j'" by simp_all
      from Cons.IH [OF tl this] Suc \<open>i = Suc i'\<close> show ?thesis by simp
    qed
  qed
qed

lemma cc_disjoint: "disjoint_list (map set (connected_components G))"
  unfolding connected_components_def using components_from_props [of G "[]"] by simp

lemma cc_Union: "\<Union>(set ` set (connected_components G)) = connected G `` set (nodes_of G)"
  unfolding connected_components_def using components_from_props [of G "[]"] by simp

lemma cc_class:
  assumes "c \<in> set (connected_components G)" and "v \<in> set c"
  shows "set c = connected G `` {v}"
proof -
  from assms(1) obtain u where c: "set c = connected G `` {u}"
    unfolding connected_components_def using components_from_class by blast
  with assms(2) have "(u, v) \<in> connected G" by simp
  from connected_class_eq [OF this] c show ?thesis by simp
qed

lemma wf_connected_nodes:
  assumes "wf_graph G"
  shows "connected G `` set (nodes_of G) = set (nodes_of G)"
proof -
  from assms have ends: "endpoints G \<subseteq> set (nodes_of G)" by (simp add: wf_graph_def)
  have "z \<in> set (nodes_of G)" if "(a, z) \<in> connected G" and "a \<in> set (nodes_of G)" for a z
    using that unfolding connected_def
  proof (induction rule: rtrancl_induct)
    case base
    then show ?case by simp
  next
    case (step y z)
    from step.hyps(2) have "z \<in> set (neighbors G y)" by (simp add: adjacent_def)
    with set_neighbors_endpoints [of G y] ends show ?case by blast
  qed
  moreover have "a \<in> connected G `` set (nodes_of G)" if "a \<in> set (nodes_of G)" for a
    using that refl_connected [of a G] by blast
  ultimately show ?thesis by blast
qed

lemma scan_of_length: "scan_of G comps \<Longrightarrow> length comps = length (connected_components G)"
  unfolding scan_of_def by (rule map_eq_imp_length_eq)

lemma scan_of_nth:
  "scan_of G comps \<Longrightarrow> i < length comps \<Longrightarrow> set (comps ! i) = set (connected_components G ! i)"
  unfolding scan_of_def by (metis length_map nth_map)

lemma scan_disjoint: "scan_of G comps \<Longrightarrow> disjoint_list (map set comps)"
  unfolding scan_of_def using cc_disjoint [of G] by simp

lemma scan_Union: "scan_of G comps \<Longrightarrow> \<Union>(set ` set comps) = connected G `` set (nodes_of G)"
proof -
  assume "scan_of G comps"
  then have "set (map set comps) = set (map set (connected_components G))"
    by (simp add: scan_of_def)
  then have "set ` set comps = set ` set (connected_components G)" by simp
  then show ?thesis using cc_Union [of G] by simp
qed

lemma scan_class:
  assumes "scan_of G comps" and "i < length comps" and "v \<in> set (comps ! i)"
  shows "set (comps ! i) = connected G `` {v}"
proof -
  from assms(1,2) have "i < length (connected_components G)" by (simp add: scan_of_length)
  then have "connected_components G ! i \<in> set (connected_components G)" by simp
  moreover from assms have "v \<in> set (connected_components G ! i)" by (simp add: scan_of_nth)
  ultimately have "set (connected_components G ! i) = connected G `` {v}" by (rule cc_class)
  with assms(1,2) show ?thesis by (simp add: scan_of_nth)
qed

lemma scan_of_self: "scan_of G (connected_components G)"
  by (simp add: scan_of_def)

lemma member2index_Some:
  "member2index (build_classes comps) m = Some i \<Longrightarrow> i < length comps \<and> m \<in> set (comps ! i)"
  unfolding build_classes_def by (drule enumerate_member2index_Some) simp

lemma member2index_scan:
  assumes "scan_of G comps" and "i < length comps" and "m \<in> set (comps ! i)"
  shows "member2index (build_classes comps) m = Some i"
  unfolding build_classes_def
  using enumerate_member2index_disjoint [OF scan_disjoint [OF assms(1)] assms(2,3), of 0] by simp

lemma index2mgi_eq:
  "index2mgi (build_classes comps) i = (if i < length comps then last_mgi (comps ! i) else None)"
  unfolding build_classes_def by (simp add: enumerate_index2mgi split: option.splits)

lemma canonical_mapping_eq:
  "canonical_mapping G comps n =
     (if n \<in> set (nodes_of G)
      then (case member2index (build_classes comps) n of
              None \<Rightarrow> None
            | Some i \<Rightarrow> index2mgi (build_classes comps) i)
      else None)"
  unfolding canonical_mapping_def by (simp add: build_mapping_eq split: option.splits)

lemma canonical_mapping_Some_iff:
  assumes "scan_of G comps"
  shows "canonical_mapping G comps n = Some r \<longleftrightarrow>
           n \<in> set (nodes_of G) \<and> (\<exists>i<length comps. n \<in> set (comps ! i) \<and> last_mgi (comps ! i) = Some r)"
proof
  assume "canonical_mapping G comps n = Some r"
  then obtain i where n: "n \<in> set (nodes_of G)"
    and i: "member2index (build_classes comps) n = Some i"
    and r: "index2mgi (build_classes comps) i = Some r"
    by (auto simp: canonical_mapping_eq split: if_splits option.splits)
  from member2index_Some [OF i] r n
  show "n \<in> set (nodes_of G) \<and> (\<exists>i<length comps. n \<in> set (comps ! i) \<and> last_mgi (comps ! i) = Some r)"
    by (auto simp: index2mgi_eq)
next
  assume "n \<in> set (nodes_of G) \<and> (\<exists>i<length comps. n \<in> set (comps ! i) \<and> last_mgi (comps ! i) = Some r)"
  then obtain i where n: "n \<in> set (nodes_of G)" and i: "i < length comps" "n \<in> set (comps ! i)"
    and r: "last_mgi (comps ! i) = Some r"
    by blast
  from member2index_scan [OF assms i] n i(1) r
  show "canonical_mapping G comps n = Some r"
    by (simp add: canonical_mapping_eq index2mgi_eq)
qed

lemma example_nodes: "nodes_of example_orthology = [hgnc_TP53, mgi_Trp53, rgd_Tp53]"
  by code_simp

lemma example_components:
  "connected_components example_orthology = [[hgnc_TP53, mgi_Trp53, rgd_Tp53]]"
  by code_simp

lemma example_scan_self: "scan_of example_orthology [[hgnc_TP53, mgi_Trp53, rgd_Tp53]]"
  by (simp add: scan_of_def example_components)

subsection \<open>The components partition the nodes (C7)\<close>

lemma cc_nonempty: "c \<in> set (connected_components G) \<Longrightarrow> c \<noteq> []"
proof -
  assume "c \<in> set (connected_components G)"
  then obtain u where "set c = connected G `` {u}"
    unfolding connected_components_def using components_from_class by blast
  with refl_connected [of u G] have "u \<in> set c" by blast
  then show ?thesis by auto
qed

lemma scan_nonempty:
  assumes "scan_of G comps" and "i < length comps"
  shows "comps ! i \<noteq> []"
proof -
  from assms have "connected_components G ! i \<in> set (connected_components G)"
    by (simp add: scan_of_length)
  then have "connected_components G ! i \<noteq> []" by (rule cc_nonempty)
  with scan_of_nth [OF assms] show ?thesis by auto
qed

lemma scan_partition:
  assumes "scan_of G comps"
  shows "\<Union>(set ` set comps) = connected G `` set (nodes_of G)"
    and "\<And>i j. i < length comps \<Longrightarrow> j < length comps \<Longrightarrow> i \<noteq> j \<Longrightarrow>
           set (comps ! i) \<inter> set (comps ! j) = {}"
proof -
  show "\<Union>(set ` set comps) = connected G `` set (nodes_of G)"
    using assms by (rule scan_Union)
next
  fix i j assume "i < length comps" "j < length comps" "i \<noteq> j"
  with disjoint_list_nth [OF scan_disjoint [OF assms], of i j]
  show "set (comps ! i) \<inter> set (comps ! j) = {}" by simp
qed

text \<open>
  C7. For every list of orthologous pairs, the connected components of the graph that
  holds these pairs partition the identifiers the pairs touch: the components cover
  exactly the touched identifiers, every touched identifier lies in exactly one
  component, two components at different positions share no identifier, and no
  component is empty.
\<close>

theorem components_partition_touched:
  assumes "scan_of (graph_of_edges E empty_graph) comps"
  shows "\<Union>(set ` set comps) = touched E \<and>
         (\<forall>v\<in>touched E. \<exists>!i. i < length comps \<and> v \<in> set (comps ! i)) \<and>
         (\<forall>i<length comps. \<forall>j<length comps. i \<noteq> j \<longrightarrow> set (comps ! i) \<inter> set (comps ! j) = {}) \<and>
         (\<forall>c\<in>set comps. c \<noteq> [])"
proof -
  let ?G = "graph_of_edges E empty_graph"
  from graph_of_edges_props [OF wf_graph_empty, of E]
  have wf: "wf_graph ?G" and nodes: "set (nodes_of ?G) = touched E"
    by (simp_all add: empty_graph_def nodes_of_def)
  have cover: "\<Union>(set ` set comps) = touched E"
    using scan_partition(1) [OF assms] wf_connected_nodes [OF wf] nodes by simp
  have disj: "\<And>i j. i < length comps \<Longrightarrow> j < length comps \<Longrightarrow> i \<noteq> j \<Longrightarrow>
           set (comps ! i) \<inter> set (comps ! j) = {}"
    using scan_partition(2) [OF assms] .
  have one: "\<exists>!i. i < length comps \<and> v \<in> set (comps ! i)" if "v \<in> touched E" for v
  proof -
    from that cover obtain c where "c \<in> set comps" "v \<in> set c" by blast
    then obtain i where i: "i < length comps" "v \<in> set (comps ! i)"
      by (auto simp: in_set_conv_nth)
    show ?thesis
    proof (rule ex1I [of _ i])
      show "i < length comps \<and> v \<in> set (comps ! i)" using i by simp
    next
      fix j assume j: "j < length comps \<and> v \<in> set (comps ! j)"
      show "j = i"
      proof (rule ccontr)
        assume "j \<noteq> i"
        with disj [of j i] j i show False by blast
      qed
    qed
  qed
  have ne: "c \<noteq> []" if "c \<in> set comps" for c
  proof -
    from that obtain i where "i < length comps" "c = comps ! i"
      by (auto simp: in_set_conv_nth)
    with scan_nonempty [OF assms] show ?thesis by simp
  qed
  from cover one disj ne show ?thesis by blast
qed

theorem components_partition_touched_witness:
  "scan_of (graph_of_edges example_edges empty_graph) [[mgi_Trp53, rgd_Tp53, hgnc_TP53]] \<and>
   touched example_edges = {hgnc_TP53, mgi_Trp53, rgd_Tp53} \<and>
   \<Union>(set ` set [[mgi_Trp53, rgd_Tp53, hgnc_TP53]]) = touched example_edges"
proof -
  have scan: "scan_of (graph_of_edges example_edges empty_graph) [[mgi_Trp53, rgd_Tp53, hgnc_TP53]]"
    using example_components
    by (simp add: scan_of_def example_orthology_def insert_commute)
  have "touched example_edges = {hgnc_TP53, mgi_Trp53, rgd_Tp53}"
    by (simp add: touched_def example_edges_def insert_commute)
  with scan components_partition_touched [OF scan] show ?thesis by simp
qed

subsection \<open>The values of the mapping (C4, C5, C6)\<close>

lemma canonical_mapping_SomeD:
  assumes "scan_of G comps" and "canonical_mapping G comps n = Some r"
  shows "n \<in> set (nodes_of G)"
    and "\<exists>i<length comps. n \<in> set (comps ! i) \<and> last_mgi (comps ! i) = Some r"
  using canonical_mapping_Some_iff [OF assms(1), THEN iffD1, OF assms(2)] by simp_all

lemma canonical_mapping_SomeI:
  assumes "scan_of G comps" and "n \<in> set (nodes_of G)" and "i < length comps"
    and "n \<in> set (comps ! i)" and "last_mgi (comps ! i) = Some r"
  shows "canonical_mapping G comps n = Some r"
proof -
  from assms(2-5) have "n \<in> set (nodes_of G) \<and>
      (\<exists>i<length comps. n \<in> set (comps ! i) \<and> last_mgi (comps ! i) = Some r)"
    by (intro conjI exI [of _ i]) simp_all
  then show ?thesis by (rule canonical_mapping_Some_iff [OF assms(1), THEN iffD2])
qed

text \<open>
  C4. The mapping is idempotent on its values: for every value \<open>r\<close> in the range of the
  canonical mapping, \<open>mapping.get(r, r)\<close> is \<open>r\<close> itself.
\<close>

theorem mapping_idempotent_on_range:
  assumes "scan_of G comps"
  shows "\<forall>r\<in>ran (canonical_mapping G comps). dict_get (canonical_mapping G comps) r r = r"
proof
  fix r assume "r \<in> ran (canonical_mapping G comps)"
  then obtain k where "canonical_mapping G comps k = Some r" by (auto simp: ran_def)
  then obtain i where i: "i < length comps" and r: "last_mgi (comps ! i) = Some r"
    using canonical_mapping_Some_iff [OF assms] by blast
  from last_mgi_Some [OF r] have rin: "r \<in> set (comps ! i)" by simp
  show "dict_get (canonical_mapping G comps) r r = r"
  proof (cases "r \<in> set (nodes_of G)")
    case True
    with i rin r have "canonical_mapping G comps r = Some r"
      using canonical_mapping_Some_iff [OF assms] by blast
    then show ?thesis by (simp add: dict_get_def)
  next
    case False
    then have "canonical_mapping G comps r = None" by (simp add: canonical_mapping_eq)
    then show ?thesis by (simp add: dict_get_def)
  qed
qed

theorem mapping_idempotent_on_range_witness:
  "scan_of example_orthology [[hgnc_TP53, mgi_Trp53, rgd_Tp53]] \<and>
   canonical_mapping example_orthology [[hgnc_TP53, mgi_Trp53, rgd_Tp53]] hgnc_TP53 = Some mgi_Trp53 \<and>
   dict_get (canonical_mapping example_orthology [[hgnc_TP53, mgi_Trp53, rgd_Tp53]])
     mgi_Trp53 mgi_Trp53 = mgi_Trp53"
proof -
  let ?m = "canonical_mapping example_orthology [[hgnc_TP53, mgi_Trp53, rgd_Tp53]]"
  have m: "?m hgnc_TP53 = Some mgi_Trp53" by code_simp
  then have "mgi_Trp53 \<in> ran ?m" by (rule ranI)
  with mapping_idempotent_on_range [OF example_scan_self] m example_scan_self
  show ?thesis by blast
qed

lemma last_mgi_same_set:
  assumes "set c = set c'"
    and "\<forall>x\<in>set c. \<forall>y\<in>set c. is_mgi x \<and> is_mgi y \<longrightarrow> x = y"
  shows "last_mgi c' = last_mgi c"
proof (cases "last_mgi c")
  case None
  then have "\<forall>m\<in>set c'. \<not> is_mgi m" using assms(1) by (simp add: last_mgi_None)
  then have "last_mgi c' = None" by (simp add: last_mgi_None)
  with None show ?thesis by simp
next
  case (Some r)
  from last_mgi_Some [OF Some] have r: "r \<in> set c" "is_mgi r" by simp_all
  with assms(1) have "\<not> (\<forall>m\<in>set c'. \<not> is_mgi m)" by blast
  then have "last_mgi c' \<noteq> None" by (simp add: last_mgi_None)
  then obtain r' where r': "last_mgi c' = Some r'" by blast
  from last_mgi_Some [OF r'] assms(1) have "r' \<in> set c" "is_mgi r'" by simp_all
  with assms(2) r have "r' = r" by blast
  with r' Some show ?thesis by simp
qed

lemma scan_of_nth_set:
  assumes "scan_of G comps" and "scan_of G comps'"
  shows "length comps' = length comps"
    and "i < length comps \<Longrightarrow> set (comps' ! i) = set (comps ! i)"
proof -
  from assms have eq: "map set comps' = map set comps" by (simp add: scan_of_def)
  then have "length (map set comps') = length (map set comps)" by (rule arg_cong)
  then show len: "length comps' = length comps" by simp
  assume i: "i < length comps"
  from eq have "map set comps' ! i = map set comps ! i" by (rule arg_cong)
  with i len show "set (comps' ! i) = set (comps ! i)" by simp
qed

lemma canonical_mapping_scan_eq:
  assumes "scan_of G comps" and "scan_of G comps'"
    and "\<And>i. i < length comps \<Longrightarrow> last_mgi (comps' ! i) = last_mgi (comps ! i)"
  shows "canonical_mapping G comps' = canonical_mapping G comps"
proof (rule ext)
  fix n
  have len: "length comps' = length comps" using assms(1,2) by (rule scan_of_nth_set(1))
  have "canonical_mapping G comps' n = Some r \<longleftrightarrow> canonical_mapping G comps n = Some r" for r
  proof -
    have "(\<exists>i<length comps'. n \<in> set (comps' ! i) \<and> last_mgi (comps' ! i) = Some r) \<longleftrightarrow>
          (\<exists>i<length comps. n \<in> set (comps ! i) \<and> last_mgi (comps ! i) = Some r)"
      unfolding len
    proof (intro iffI; elim exE conjE)
      fix i assume i: "i < length comps" and "n \<in> set (comps' ! i)" "last_mgi (comps' ! i) = Some r"
      with scan_of_nth_set(2) [OF assms(1,2) i] assms(3) [OF i]
      have "n \<in> set (comps ! i) \<and> last_mgi (comps ! i) = Some r" by simp
      with i show "\<exists>i<length comps. n \<in> set (comps ! i) \<and> last_mgi (comps ! i) = Some r" by blast
    next
      fix i assume i: "i < length comps" and "n \<in> set (comps ! i)" "last_mgi (comps ! i) = Some r"
      with scan_of_nth_set(2) [OF assms(1,2) i] assms(3) [OF i]
      have "n \<in> set (comps' ! i) \<and> last_mgi (comps' ! i) = Some r" by simp
      with i show "\<exists>i<length comps. n \<in> set (comps' ! i) \<and> last_mgi (comps' ! i) = Some r" by blast
    qed
    then show ?thesis
      unfolding canonical_mapping_Some_iff [OF assms(1)] canonical_mapping_Some_iff [OF assms(2)]
      by simp
  qed
  note iff = this
  show "canonical_mapping G comps' n = canonical_mapping G comps n"
  proof (cases "canonical_mapping G comps n")
    case None
    have "canonical_mapping G comps' n = None"
    proof (rule ccontr)
      assume "canonical_mapping G comps' n \<noteq> None"
      then obtain r where "canonical_mapping G comps' n = Some r" by blast
      with iff [of r] None show False by simp
    qed
    with None show ?thesis by simp
  next
    case (Some r)
    with iff [of r] show ?thesis by simp
  qed
qed

text \<open>
  C5 (as stated, refuted). The claim ends with: the whole mapping is deterministic given
  a fixed iteration order of the input node/edge sequence. The graph built from the
  edges TP53 -- Trp53 and TP53 -- Trp53-ps, in this order, has one component with two
  MGI members. Cell 11 scans the component as a set, in an order that the sequence of
  the edges does not fix: a scan that meets Trp53-ps last maps TP53 to Trp53-ps, a scan
  that meets Trp53 last maps TP53 to Trp53.
\<close>

theorem mapping_differs_between_scans:
  "scan_of (graph_of_edges two_mgi_edges empty_graph) [[mgi_Trp53, hgnc_TP53, mgi_Trp53_ps]] \<and>
   scan_of (graph_of_edges two_mgi_edges empty_graph) [[mgi_Trp53_ps, hgnc_TP53, mgi_Trp53]] \<and>
   canonical_mapping (graph_of_edges two_mgi_edges empty_graph)
     [[mgi_Trp53, hgnc_TP53, mgi_Trp53_ps]] hgnc_TP53 = Some mgi_Trp53_ps \<and>
   canonical_mapping (graph_of_edges two_mgi_edges empty_graph)
     [[mgi_Trp53_ps, hgnc_TP53, mgi_Trp53]] hgnc_TP53 = Some mgi_Trp53 \<and>
   mgi_Trp53_ps \<noteq> mgi_Trp53"
proof -
  let ?G = "graph_of_edges two_mgi_edges empty_graph"
  have cc: "connected_components ?G = [[hgnc_TP53, mgi_Trp53, mgi_Trp53_ps]]"
    by code_simp
  have s1: "scan_of ?G [[mgi_Trp53, hgnc_TP53, mgi_Trp53_ps]]"
    by (simp add: scan_of_def cc insert_commute)
  have s2: "scan_of ?G [[mgi_Trp53_ps, hgnc_TP53, mgi_Trp53]]"
    by (simp add: scan_of_def cc insert_commute)
  have m1: "canonical_mapping ?G [[mgi_Trp53, hgnc_TP53, mgi_Trp53_ps]] hgnc_TP53 = Some mgi_Trp53_ps"
    by code_simp
  have m2: "canonical_mapping ?G [[mgi_Trp53_ps, hgnc_TP53, mgi_Trp53]] hgnc_TP53 = Some mgi_Trp53"
    by code_simp
  have ne: "mgi_Trp53_ps \<noteq> mgi_Trp53" by (simp add: mgi_Trp53_ps_def mgi_Trp53_def)
  from s1 s2 m1 m2 ne show ?thesis by (intro conjI)
qed

text \<open>
  C5 (amended). For every key \<open>k\<close> of the canonical mapping, the value \<open>mapping[k]\<close> has the
  namespace MGI, is the representative recorded for the component that holds \<open>k\<close>, lies
  in that component and in no other, and is connected to \<open>k\<close> in the undirected
  orthology graph. The mapping is determined by the graph together with the order in
  which cell 11 scans the members of each component, not by the graph alone: two scans
  of the same graph that end, in every component, with the same last MGI member give
  the same mapping; so when no component has two MGI members, every scan of the graph
  gives the same mapping.
\<close>

theorem mapping_value_in_component_scan_determined:
  assumes "scan_of G comps"
  shows "(\<forall>k r. canonical_mapping G comps k = Some r \<longrightarrow>
            fst (snd r) = ''MGI'' \<and>
            (\<exists>i<length comps. k \<in> set (comps ! i) \<and> r \<in> set (comps ! i) \<and>
               index2mgi (build_classes comps) i = Some r \<and>
               (\<forall>j<length comps. r \<in> set (comps ! j) \<longrightarrow> j = i)) \<and>
            (k, r) \<in> connected G) \<and>
         (\<forall>comps'. scan_of G comps' \<and>
              (\<forall>i<length comps. last_mgi (comps' ! i) = last_mgi (comps ! i)) \<longrightarrow>
            canonical_mapping G comps' = canonical_mapping G comps) \<and>
         ((\<forall>c\<in>set comps. \<forall>x\<in>set c. \<forall>y\<in>set c. is_mgi x \<and> is_mgi y \<longrightarrow> x = y) \<longrightarrow>
            (\<forall>comps'. scan_of G comps' \<longrightarrow> canonical_mapping G comps' = canonical_mapping G comps))"
proof (intro conjI allI impI)
  fix k r assume kr: "canonical_mapping G comps k = Some r"
  from canonical_mapping_SomeD(2) [OF assms kr]
  obtain i where i: "i < length comps" and k: "k \<in> set (comps ! i)"
    and r: "last_mgi (comps ! i) = Some r"
    by blast
  from last_mgi_Some [OF r] have rin: "r \<in> set (comps ! i)" and mgi: "fst (snd r) = ''MGI''"
    by (simp_all add: is_mgi_def)
  have only: "j = i" if "j < length comps" and "r \<in> set (comps ! j)" for j
  proof (rule ccontr)
    assume "j \<noteq> i"
    with scan_partition(2) [OF assms, of j i] that i rin show False by blast
  qed
  from i r have rep: "index2mgi (build_classes comps) i = Some r"
    by (simp add: index2mgi_eq)
  show "fst (snd r) = ''MGI''" by (rule mgi)
  from i k rin rep only
  show "\<exists>i<length comps. k \<in> set (comps ! i) \<and> r \<in> set (comps ! i) \<and>
            index2mgi (build_classes comps) i = Some r \<and>
            (\<forall>j<length comps. r \<in> set (comps ! j) \<longrightarrow> j = i)"
    by blast
  from scan_class [OF assms i k] rin show "(k, r) \<in> connected G" by simp
next
  fix comps'
  assume a: "scan_of G comps' \<and> (\<forall>i<length comps. last_mgi (comps' ! i) = last_mgi (comps ! i))"
  then have s: "scan_of G comps'"
    and l: "\<And>i. i < length comps \<Longrightarrow> last_mgi (comps' ! i) = last_mgi (comps ! i)"
    by simp_all
  from assms s l show "canonical_mapping G comps' = canonical_mapping G comps"
    by (rule canonical_mapping_scan_eq)
next
  fix comps'
  assume single: "\<forall>c\<in>set comps. \<forall>x\<in>set c. \<forall>y\<in>set c. is_mgi x \<and> is_mgi y \<longrightarrow> x = y"
    and s: "scan_of G comps'"
  have "last_mgi (comps' ! i) = last_mgi (comps ! i)" if i: "i < length comps" for i
  proof (rule last_mgi_same_set)
    from scan_of_nth_set(2) [OF assms s i] show "set (comps ! i) = set (comps' ! i)" by (rule sym)
    from i have "comps ! i \<in> set comps" by simp
    with single show "\<forall>x\<in>set (comps ! i). \<forall>y\<in>set (comps ! i). is_mgi x \<and> is_mgi y \<longrightarrow> x = y"
      by (rule bspec)
  qed
  with assms s show "canonical_mapping G comps' = canonical_mapping G comps"
    by (rule canonical_mapping_scan_eq)
qed

theorem mapping_value_in_component_scan_determined_witness:
  "scan_of example_orthology [[hgnc_TP53, mgi_Trp53, rgd_Tp53]] \<and>
   scan_of example_orthology [[rgd_Tp53, mgi_Trp53, hgnc_TP53]] \<and>
   canonical_mapping example_orthology [[hgnc_TP53, mgi_Trp53, rgd_Tp53]] rgd_Tp53 = Some mgi_Trp53 \<and>
   fst (snd mgi_Trp53) = ''MGI'' \<and> (rgd_Tp53, mgi_Trp53) \<in> connected example_orthology \<and>
   canonical_mapping example_orthology [[rgd_Tp53, mgi_Trp53, hgnc_TP53]]
     = canonical_mapping example_orthology [[hgnc_TP53, mgi_Trp53, rgd_Tp53]]"
proof -
  let ?A = "[[hgnc_TP53, mgi_Trp53, rgd_Tp53]]"
  let ?B = "[[rgd_Tp53, mgi_Trp53, hgnc_TP53]]"
  have sB: "scan_of example_orthology ?B"
    by (simp add: scan_of_def example_components insert_commute)
  have m: "canonical_mapping example_orthology ?A rgd_Tp53 = Some mgi_Trp53"
    by code_simp
  have single: "\<forall>c\<in>set ?A. \<forall>x\<in>set c. \<forall>y\<in>set c. is_mgi x \<and> is_mgi y \<longrightarrow> x = y"
    by (simp add: is_mgi_def hgnc_TP53_def mgi_Trp53_def rgd_Tp53_def)
  note main = mapping_value_in_component_scan_determined [OF example_scan_self]
  from main [THEN conjunct1, rule_format, OF m]
  have "fst (snd mgi_Trp53) = ''MGI''" and "(rgd_Tp53, mgi_Trp53) \<in> connected example_orthology"
    by simp_all
  moreover from main [THEN conjunct2, THEN conjunct2, THEN mp, OF single, THEN spec, THEN mp, OF sB]
  have "canonical_mapping example_orthology ?B = canonical_mapping example_orthology ?A" .
  ultimately show ?thesis using example_scan_self sB m by (intro conjI)
qed

text \<open>
  C6. When a component holds one or several MGI members, the representative recorded
  for the component is the MGI member that the scan of the component meets last, and
  every member of the component is mapped to this one representative.
\<close>

theorem last_mgi_member_is_representative:
  assumes "scan_of G comps" and "wf_graph G" and "i < length comps"
    and "filter is_mgi (comps ! i) \<noteq> []"
  shows "index2mgi (build_classes comps) i = Some (last (filter is_mgi (comps ! i))) \<and>
         (\<forall>m\<in>set (comps ! i). canonical_mapping G comps m = Some (last (filter is_mgi (comps ! i))))"
proof -
  from assms(4) have r: "last_mgi (comps ! i) = Some (last (filter is_mgi (comps ! i)))"
    by (simp add: last_mgi_def split: list.splits)
  have "canonical_mapping G comps m = Some (last (filter is_mgi (comps ! i)))"
    if "m \<in> set (comps ! i)" for m
  proof -
    from that assms(3) have "m \<in> \<Union>(set ` set comps)" by auto
    then have "m \<in> set (nodes_of G)"
      using scan_Union [OF assms(1)] wf_connected_nodes [OF assms(2)] by simp
    with that assms(3) r show ?thesis
      using canonical_mapping_Some_iff [OF assms(1)] by blast
  qed
  with r assms(3) show ?thesis by (simp add: index2mgi_eq)
qed

theorem last_mgi_member_is_representative_witness:
  "scan_of (graph_of_edges two_mgi_edges empty_graph) [[mgi_Trp53, hgnc_TP53, mgi_Trp53_ps]] \<and>
   wf_graph (graph_of_edges two_mgi_edges empty_graph) \<and>
   filter is_mgi [mgi_Trp53, hgnc_TP53, mgi_Trp53_ps] = [mgi_Trp53, mgi_Trp53_ps] \<and>
   index2mgi (build_classes [[mgi_Trp53, hgnc_TP53, mgi_Trp53_ps]]) 0 = Some mgi_Trp53_ps \<and>
   canonical_mapping (graph_of_edges two_mgi_edges empty_graph)
     [[mgi_Trp53, hgnc_TP53, mgi_Trp53_ps]] mgi_Trp53 = Some mgi_Trp53_ps"
proof -
  let ?G = "graph_of_edges two_mgi_edges empty_graph"
  let ?comps = "[[mgi_Trp53, hgnc_TP53, mgi_Trp53_ps]]"
  have cc: "connected_components ?G = [[hgnc_TP53, mgi_Trp53, mgi_Trp53_ps]]"
    by code_simp
  have scan: "scan_of ?G ?comps"
    by (simp add: scan_of_def cc insert_commute)
  have wf: "wf_graph ?G"
    using graph_of_edges_props [OF wf_graph_empty] by simp
  have f: "filter is_mgi [mgi_Trp53, hgnc_TP53, mgi_Trp53_ps] = [mgi_Trp53, mgi_Trp53_ps]"
    by (simp add: is_mgi_def mgi_Trp53_def hgnc_TP53_def mgi_Trp53_ps_def)
  have nth: "?comps ! 0 = [mgi_Trp53, hgnc_TP53, mgi_Trp53_ps]" by simp
  have ne: "filter is_mgi (?comps ! 0) \<noteq> []" unfolding nth f by simp
  have len: "0 < length ?comps" by simp
  from last_mgi_member_is_representative [OF scan wf len ne]
  have "index2mgi (build_classes ?comps) 0 = Some (last [mgi_Trp53, mgi_Trp53_ps]) \<and>
        (\<forall>m\<in>set [mgi_Trp53, hgnc_TP53, mgi_Trp53_ps].
           canonical_mapping ?G ?comps m = Some (last [mgi_Trp53, mgi_Trp53_ps]))"
    unfolding nth f .
  then have "index2mgi (build_classes ?comps) 0 = Some mgi_Trp53_ps"
    and "canonical_mapping ?G ?comps mgi_Trp53 = Some mgi_Trp53_ps"
    by simp_all
  with scan wf f show ?thesis by (intro conjI)
qed

subsection \<open>Components without a reference member, and the membership guard (C8, C10)\<close>

text \<open>
  C8. A component without an MGI member contributes nothing to the canonical mapping:
  none of its members is a key, so none is mapped to itself, and the construction
  returns a mapping all the same. An empty orthology graph has no component and gives
  the empty mapping.
\<close>

theorem component_without_mgi_is_unmapped:
  "(scan_of G comps \<and> i < length comps \<and> (\<forall>m\<in>set (comps ! i). fst (snd m) \<noteq> ''MGI'') \<longrightarrow>
      (\<forall>m\<in>set (comps ! i). canonical_mapping G comps m = None)) \<and>
   connected_components empty_graph = [] \<and>
   canonical_mapping empty_graph (connected_components empty_graph) = Map.empty"
proof (intro conjI impI)
  assume a: "scan_of G comps \<and> i < length comps \<and> (\<forall>m\<in>set (comps ! i). fst (snd m) \<noteq> ''MGI'')"
  then have scan: "scan_of G comps" and i: "i < length comps"
    and none: "\<forall>m\<in>set (comps ! i). \<not> is_mgi m"
    by (simp_all add: is_mgi_def)
  from none have nomgi: "last_mgi (comps ! i) = None" by (simp add: last_mgi_None)
  show "\<forall>m\<in>set (comps ! i). canonical_mapping G comps m = None"
  proof
    fix m assume m: "m \<in> set (comps ! i)"
    show "canonical_mapping G comps m = None"
    proof (cases "canonical_mapping G comps m")
      case None
      then show ?thesis .
    next
      case (Some r)
      from canonical_mapping_SomeD(2) [OF scan Some]
      obtain j where j: "j < length comps" "m \<in> set (comps ! j)" "last_mgi (comps ! j) = Some r"
        by blast
      have "j = i"
      proof (rule ccontr)
        assume "j \<noteq> i"
        with scan_partition(2) [OF scan, of j i] j i m show False by blast
      qed
      with j(3) nomgi show ?thesis by simp
    qed
  qed
next
  show cc: "connected_components empty_graph = []"
    by (simp add: connected_components_def empty_graph_def nodes_of_def)
  show "canonical_mapping empty_graph (connected_components empty_graph) = Map.empty"
    by (simp add: cc canonical_mapping_def empty_graph_def nodes_of_def)
qed

theorem component_without_mgi_is_unmapped_witness:
  "scan_of (graph_of_edges no_mgi_edges empty_graph) [[rgd_Foo, hgnc_FOO]] \<and>
   canonical_mapping (graph_of_edges no_mgi_edges empty_graph) [[rgd_Foo, hgnc_FOO]] hgnc_FOO = None \<and>
   canonical_mapping (graph_of_edges no_mgi_edges empty_graph) [[rgd_Foo, hgnc_FOO]] rgd_Foo = None"
proof -
  let ?G = "graph_of_edges no_mgi_edges empty_graph"
  let ?comps = "[[rgd_Foo, hgnc_FOO]]"
  have cc: "connected_components ?G = [[hgnc_FOO, rgd_Foo]]"
    by code_simp
  have scan: "scan_of ?G ?comps"
    by (simp add: scan_of_def cc insert_commute)
  have pre: "scan_of ?G ?comps \<and> 0 < length ?comps \<and> (\<forall>m\<in>set (?comps ! 0). fst (snd m) \<noteq> ''MGI'')"
    using scan by (simp add: rgd_Foo_def hgnc_FOO_def)
  have "\<forall>m\<in>set (?comps ! 0). canonical_mapping ?G ?comps m = None"
    using component_without_mgi_is_unmapped [of ?G ?comps 0] pre by blast
  with scan show ?thesis by simp
qed

text \<open>
  C10. Every node of the undirected orthology graph is a key of \<open>member2index\<close>, because
  the enumeration of the components reaches every node. The test
  \<open>(function, namespace, name) not in member2index\<close> of the loop that builds the mapping
  is therefore false at every node the loop visits, and the lookup after it finds a
  component index that is in range and holds the node.
\<close>

theorem every_node_has_component_index:
  assumes "scan_of G comps"
  shows "\<forall>n\<in>set (nodes_of G).
           \<exists>i. member2index (build_classes comps) n = Some i \<and> i < length comps \<and> n \<in> set (comps ! i)"
proof
  fix n assume "n \<in> set (nodes_of G)"
  with refl_connected [of n G] have "n \<in> connected G `` set (nodes_of G)" by blast
  then have "n \<in> \<Union>(set ` set comps)" by (simp only: scan_Union [OF assms])
  then obtain c where "c \<in> set comps" "n \<in> set c" by blast
  then obtain i where i: "i < length comps" "n \<in> set (comps ! i)"
    by (auto simp: in_set_conv_nth)
  from member2index_scan [OF assms i] i
  show "\<exists>i. member2index (build_classes comps) n = Some i \<and> i < length comps \<and> n \<in> set (comps ! i)"
    by blast
qed

theorem every_node_has_component_index_witness:
  "scan_of example_orthology [[hgnc_TP53, mgi_Trp53, rgd_Tp53]] \<and>
   rgd_Tp53 \<in> set (nodes_of example_orthology) \<and>
   member2index (build_classes [[hgnc_TP53, mgi_Trp53, rgd_Tp53]]) rgd_Tp53 = Some 0"
proof -
  have n: "rgd_Tp53 \<in> set (nodes_of example_orthology)"
    by (simp add: example_nodes)
  from every_node_has_component_index [OF example_scan_self] n
  obtain i where "member2index (build_classes [[hgnc_TP53, mgi_Trp53, rgd_Tp53]]) rgd_Tp53 = Some i"
    and "i < length [[hgnc_TP53, mgi_Trp53, rgd_Tp53]]"
    by blast
  then have "member2index (build_classes [[hgnc_TP53, mgi_Trp53, rgd_Tp53]]) rgd_Tp53 = Some 0"
    by simp
  with example_scan_self n show ?thesis by (intro conjI)
qed

subsection \<open>The example of the specification (C1)\<close>

text \<open>
  C1 (as stated, refuted). For the edges TP53 (HGNC) -- Trp53 (MGI) and Trp53 (MGI) --
  Tp53 (RGD) the claim says that the mapping has exactly the two entries of TP53 and
  Tp53 and that Trp53 is not a key. The loop of cell 12 visits Trp53 as well, finds its
  component and the component's representative, and stores Trp53 under its own name.
\<close>

theorem example_reference_node_is_a_key:
  "canonical_mapping example_orthology (connected_components example_orthology) mgi_Trp53
     = Some mgi_Trp53 \<and>
   canonical_mapping example_orthology (connected_components example_orthology)
     \<noteq> [hgnc_TP53 \<mapsto> mgi_Trp53, rgd_Tp53 \<mapsto> mgi_Trp53]"
proof -
  let ?m = "canonical_mapping example_orthology (connected_components example_orthology)"
  have key: "?m mgi_Trp53 = Some mgi_Trp53" by code_simp
  have "[hgnc_TP53 \<mapsto> mgi_Trp53, rgd_Tp53 \<mapsto> mgi_Trp53] mgi_Trp53 = None"
    by (simp add: hgnc_TP53_def mgi_Trp53_def rgd_Tp53_def)
  with key have "?m \<noteq> [hgnc_TP53 \<mapsto> mgi_Trp53, rgd_Tp53 \<mapsto> mgi_Trp53]"
    by (metis option.distinct(1))
  with key show ?thesis by (intro conjI)
qed

text \<open>
  C1 (amended). For the same edges, in whatever order the component is scanned, there
  is exactly one component, it has the three identifiers, and the canonical mapping has
  exactly three entries: TP53, Tp53 and Trp53 itself are all mapped to Trp53.
\<close>

theorem example_components_and_mapping:
  assumes "scan_of example_orthology comps"
  shows "length comps = 1 \<and>
         set (hd comps) = {hgnc_TP53, mgi_Trp53, rgd_Tp53} \<and>
         card (set (hd comps)) = 3 \<and>
         canonical_mapping example_orthology comps
           = [hgnc_TP53 \<mapsto> mgi_Trp53, rgd_Tp53 \<mapsto> mgi_Trp53, mgi_Trp53 \<mapsto> mgi_Trp53]"
proof -
  let ?S = "{hgnc_TP53, mgi_Trp53, rgd_Tp53}"
  from assms have sets: "map set comps = [?S]"
    by (simp add: scan_of_def example_components)
  then obtain c where comps: "comps = [c]" and c: "set c = ?S"
    by (cases comps) auto
  have ne: "hgnc_TP53 \<noteq> mgi_Trp53" "hgnc_TP53 \<noteq> rgd_Tp53" "mgi_Trp53 \<noteq> rgd_Tp53"
    by (simp_all add: hgnc_TP53_def mgi_Trp53_def rgd_Tp53_def)
  then have card: "card ?S = 3" by simp
  have mgi: "is_mgi mgi_Trp53" "\<not> is_mgi hgnc_TP53" "\<not> is_mgi rgd_Tp53"
    by (simp_all add: is_mgi_def hgnc_TP53_def mgi_Trp53_def rgd_Tp53_def)
  have rep: "last_mgi c = Some mgi_Trp53"
  proof (cases "last_mgi c")
    case None
    then have "\<not> is_mgi mgi_Trp53" using c by (simp add: last_mgi_None)
    with mgi(1) show ?thesis by simp
  next
    case (Some r)
    from last_mgi_Some [OF Some] c mgi have "r = mgi_Trp53" by auto
    with Some show ?thesis by simp
  qed
  have nodes: "set (nodes_of example_orthology) = ?S"
    by (simp add: example_nodes)
  have "canonical_mapping example_orthology comps n
          = [hgnc_TP53 \<mapsto> mgi_Trp53, rgd_Tp53 \<mapsto> mgi_Trp53, mgi_Trp53 \<mapsto> mgi_Trp53] n" for n
  proof (cases "n \<in> ?S")
    case True
    then have "canonical_mapping example_orthology comps n = Some mgi_Trp53"
      using canonical_mapping_SomeI [OF assms, of n 0 mgi_Trp53] nodes comps c rep by simp
    with True show ?thesis by auto
  next
    case False
    with nodes have "canonical_mapping example_orthology comps n = None"
      by (simp add: canonical_mapping_eq)
    with False show ?thesis by simp
  qed
  then have "canonical_mapping example_orthology comps
          = [hgnc_TP53 \<mapsto> mgi_Trp53, rgd_Tp53 \<mapsto> mgi_Trp53, mgi_Trp53 \<mapsto> mgi_Trp53]"
    by (rule ext)
  with comps c card show ?thesis by simp
qed

theorem example_components_and_mapping_witness:
  "scan_of example_orthology [[rgd_Tp53, mgi_Trp53, hgnc_TP53]] \<and>
   canonical_mapping example_orthology [[rgd_Tp53, mgi_Trp53, hgnc_TP53]]
     = [hgnc_TP53 \<mapsto> mgi_Trp53, rgd_Tp53 \<mapsto> mgi_Trp53, mgi_Trp53 \<mapsto> mgi_Trp53]"
proof -
  have scan: "scan_of example_orthology [[rgd_Tp53, mgi_Trp53, hgnc_TP53]]"
    by (simp add: scan_of_def example_components insert_commute)
  from example_components_and_mapping [OF scan] scan show ?thesis by (intro conjI) simp_all
qed

subsection \<open>The graph operations behind the relabeling\<close>

lemma wf_graphI:
  "distinct (map fst (node G)) \<Longrightarrow> distinct (map fst (edge G)) \<Longrightarrow>
     (\<And>k. k \<in> keys_of G \<Longrightarrow> fst k \<in> set (nodes_of G) \<and> fst (snd k) \<in> set (nodes_of G)) \<Longrightarrow>
     wf_graph G"
  unfolding wf_graph_def endpoints_keys keys_of_def [symmetric]
  by (simp add: image_subset_iff)

lemma wf_graph_keys:
  "wf_graph G \<Longrightarrow> k \<in> keys_of G \<Longrightarrow> fst k \<in> set (nodes_of G) \<and> fst (snd k) \<in> set (nodes_of G)"
  unfolding wf_graph_def endpoints_keys keys_of_def [symmetric]
  by (simp add: image_subset_iff)

lemma wf_graph_distinct:
  "wf_graph G \<Longrightarrow> distinct (map fst (node G))" "wf_graph G \<Longrightarrow> distinct (map fst (edge G))"
  by (simp_all add: wf_graph_def)

lemma nodes_of_add_node: "set (nodes_of (add_node n a G)) = insert n (set (nodes_of G))"
  by (simp add: add_node_def nodes_of_def dom_update)

lemma edge_add_node: "edge (add_node n a G) = edge G"
  by (simp add: add_node_def)

lemma map_of_add_node:
  "map_of (node (add_node n a G)) =
     (map_of (node G))(n \<mapsto> (case map_of (node G) n of None \<Rightarrow> a | Some b \<Rightarrow> b ++ a))"
  by (simp add: add_node_def update_conv')

lemma wf_graph_add_node:
  assumes "wf_graph G"
  shows "wf_graph (add_node n a G)"
proof (rule wf_graphI)
  show "distinct (map fst (node (add_node n a G)))"
    using wf_graph_distinct(1) [OF assms] by (simp add: add_node_def distinct_update)
  show "distinct (map fst (edge (add_node n a G)))"
    using wf_graph_distinct(2) [OF assms] by (simp add: edge_add_node)
  fix k assume "k \<in> keys_of (add_node n a G)"
  then have "k \<in> keys_of G" by (simp add: keys_of_def edge_add_node)
  from wf_graph_keys [OF assms this]
  show "fst k \<in> set (nodes_of (add_node n a G)) \<and> fst (snd k) \<in> set (nodes_of (add_node n a G))"
    by (simp add: nodes_of_add_node)
qed

lemma nodes_of_remove_node: "set (nodes_of (remove_node n G)) = set (nodes_of G) - {n}"
proof -
  have "map fst (node (remove_node n G)) = removeAll n (map fst (node G))"
    by (simp add: remove_node_def delete_keys)
  then show ?thesis by (simp add: nodes_of_def)
qed

lemma map_of_remove_node: "map_of (node (remove_node n G)) = (map_of (node G))(n := None)"
  by (simp add: remove_node_def delete_conv')

lemma keys_of_remove_node:
  "keys_of (remove_node n G) = {k \<in> keys_of G. fst k \<noteq> n \<and> fst (snd k) \<noteq> n}"
  unfolding keys_of_def remove_node_def by (auto simp: src_def tgt_def image_iff)

lemma wf_graph_remove_node:
  assumes "wf_graph G"
  shows "wf_graph (remove_node n G)"
proof (rule wf_graphI)
  show "distinct (map fst (node (remove_node n G)))"
    using wf_graph_distinct(1) [OF assms] by (simp add: remove_node_def distinct_delete)
  show "distinct (map fst (edge (remove_node n G)))"
    using wf_graph_distinct(2) [OF assms] by (simp add: remove_node_def distinct_map_filter)
  fix k assume "k \<in> keys_of (remove_node n G)"
  then have k: "k \<in> keys_of G" "fst k \<noteq> n" "fst (snd k) \<noteq> n"
    by (simp_all add: keys_of_remove_node)
  from wf_graph_keys [OF assms k(1)] k(2,3)
  show "fst k \<in> set (nodes_of (remove_node n G)) \<and> fst (snd k) \<in> set (nodes_of (remove_node n G))"
    by (simp add: nodes_of_remove_node)
qed

lemma keys_of_add_edge: "keys_of (add_edge u v key d G) = insert (u, v, key) (keys_of G)"
  by (simp add: keys_of_def edge_keys_add_edge)

lemma add_edges_from_props:
  "wf_graph G \<Longrightarrow> \<forall>e\<in>set es. src e \<in> set (nodes_of G) \<and> tgt e \<in> set (nodes_of G) \<Longrightarrow>
     node (add_edges_from es G) = node G \<and>
     keys_of (add_edges_from es G) = keys_of G \<union> fst ` set es \<and>
     wf_graph (add_edges_from es G)"
proof (induction es G rule: add_edges_from.induct)
  case (1 G)
  then show ?case by simp
next
  case (2 u v key d es G)
  let ?G' = "add_edge u v key d G"
  from "2.prems"(2) have uv: "u \<in> set (nodes_of G)" "v \<in> set (nodes_of G)"
    by (simp_all add: src_simp tgt_simp)
  then have same: "node ?G' = node G" by (rule node_add_edge)
  then have nodes: "nodes_of ?G' = nodes_of G" by (simp add: nodes_of_def)
  have wf': "wf_graph ?G'" using "2.prems"(1) by (rule wf_graph_add_edge)
  from "2.prems"(2) nodes
  have ends: "\<forall>e\<in>set es. src e \<in> set (nodes_of ?G') \<and> tgt e \<in> set (nodes_of ?G')"
    by simp
  from "2.IH" [OF wf' ends] same show ?case
    by (simp add: keys_of_add_edge)
qed

subsection \<open>Renaming one node\<close>

lemma keys_filter_src: "fst ` {e \<in> set es. src e = n} = {k \<in> fst ` set es. fst k = n}"
  by (auto simp: src_def image_iff)

lemma keys_filter_tgt: "fst ` {e \<in> set es. tgt e = n} = {k \<in> fst ` set es. fst (snd k) = n}"
  by (auto simp: tgt_def image_iff)

lemma new_edges_out_keys:
  "fst ` set (map (\<lambda>e. ((new, if old = tgt e then new else tgt e, ekey e), snd e)) (out_edges G old))
     = rename_key (rename1 old new) ` {k \<in> keys_of G. fst k = old}"
proof -
  have "fst ` set (map (\<lambda>e. ((new, if old = tgt e then new else tgt e, ekey e), snd e)) (out_edges G old))
      = (\<lambda>e. (new, if old = tgt e then new else tgt e, ekey e)) ` {e \<in> set (edge G). src e = old}"
    by (simp add: out_edges_def image_image)
  also have "\<dots> = (\<lambda>e. rename_key (rename1 old new) (fst e)) ` {e \<in> set (edge G). src e = old}"
    by (rule image_cong) (auto simp: rename_key_def rename1_def src_def tgt_def ekey_def)
  also have "\<dots> = rename_key (rename1 old new) ` fst ` {e \<in> set (edge G). src e = old}"
    by (simp add: image_image)
  finally show ?thesis by (simp add: keys_filter_src keys_of_def)
qed

lemma new_edges_in_keys:
  "fst ` set (map (\<lambda>e. ((if old = src e then new else src e, new, ekey e), snd e)) (in_edges G old))
     = rename_key (rename1 old new) ` {k \<in> keys_of G. fst (snd k) = old}"
proof -
  have "fst ` set (map (\<lambda>e. ((if old = src e then new else src e, new, ekey e), snd e)) (in_edges G old))
      = (\<lambda>e. (if old = src e then new else src e, new, ekey e)) ` {e \<in> set (edge G). tgt e = old}"
    by (simp add: in_edges_def image_image)
  also have "\<dots> = (\<lambda>e. rename_key (rename1 old new) (fst e)) ` {e \<in> set (edge G). tgt e = old}"
    by (rule image_cong) (auto simp: rename_key_def rename1_def src_def tgt_def ekey_def)
  also have "\<dots> = rename_key (rename1 old new) ` fst ` {e \<in> set (edge G). tgt e = old}"
    by (simp add: image_image)
  finally show ?thesis by (simp add: keys_filter_tgt keys_of_def)
qed

lemma rename_key_untouched:
  "fst k \<noteq> old \<Longrightarrow> fst (snd k) \<noteq> old \<Longrightarrow> rename_key (rename1 old new) k = k"
  by (simp add: rename_key_def rename1_def)

lemma rename1_image_keys:
  "{k \<in> K. fst k \<noteq> old \<and> fst (snd k) \<noteq> old} \<union>
     (rename_key (rename1 old new) ` {k \<in> K. fst k = old} \<union>
      rename_key (rename1 old new) ` {k \<in> K. fst (snd k) = old})
   = rename_key (rename1 old new) ` K"
proof -
  define A where "A = {k \<in> K. fst k \<noteq> old \<and> fst (snd k) \<noteq> old}"
  define B where "B = {k \<in> K. fst k = old}"
  define C where "C = {k \<in> K. fst (snd k) = old}"
  have fixA: "rename_key (rename1 old new) ` A = A"
  proof -
    have "rename_key (rename1 old new) ` A = (\<lambda>k. k) ` A"
      by (rule image_cong) (simp_all add: A_def rename_key_untouched)
    then show ?thesis by simp
  qed
  have "A \<union> (B \<union> C) = K" unfolding A_def B_def C_def by blast
  then have "rename_key (rename1 old new) ` K = rename_key (rename1 old new) ` (A \<union> (B \<union> C))"
    by (rule arg_cong [symmetric])
  also have "\<dots> = A \<union> (rename_key (rename1 old new) ` B \<union> rename_key (rename1 old new) ` C)"
    by (simp only: image_Un fixA)
  finally show ?thesis unfolding A_def B_def C_def by (rule sym)
qed

lemma relabel_step_props:
  assumes wf: "wf_graph G" and a: "map_of (node G) old = Some a"
    and m: "m old = Some new" and ne: "new \<noteq> old"
  shows "\<exists>G'. relabel_step m old G = Inr G' \<and> wf_graph G' \<and>
           set (nodes_of G') = rename1 old new ` set (nodes_of G) \<and>
           keys_of G' = rename_key (rename1 old new) ` keys_of G \<and>
           map_of (node G') =
             (map_of (node G))
               (new \<mapsto> (case map_of (node G) new of None \<Rightarrow> a | Some b \<Rightarrow> b ++ a), old := None)"
proof -
  define G1 where "G1 = add_node new a G"
  define es_out where
    "es_out = map (\<lambda>e. ((new, if old = tgt e then new else tgt e, ekey e), snd e)) (out_edges G1 old)"
  define es_in where
    "es_in = map (\<lambda>e. ((if old = src e then new else src e, new, ekey e), snd e)) (in_edges G1 old)"
  define G2 where "G2 = remove_node old G1"
  define G' where "G' = add_edges_from (es_out @ es_in) G2"
  have step: "relabel_step m old G = Inr G'"
    by (simp add: relabel_step_def m ne a Let_def G'_def G2_def es_out_def es_in_def G1_def)
  have wf1: "wf_graph G1" unfolding G1_def using wf by (rule wf_graph_add_node)
  have wf2: "wf_graph G2" unfolding G2_def using wf1 by (rule wf_graph_remove_node)
  have old_in: "old \<in> set (nodes_of G)"
    using a by (auto simp: nodes_of_def dest: map_of_SomeD intro: rev_image_eqI)
  have keys1: "keys_of G1 = keys_of G" by (simp add: G1_def keys_of_def edge_add_node)
  have nodes2: "set (nodes_of G2) = insert new (set (nodes_of G)) - {old}"
    by (simp add: G2_def G1_def nodes_of_remove_node nodes_of_add_node)
  have nodes2': "set (nodes_of G2) = rename1 old new ` set (nodes_of G)"
    unfolding nodes2 using old_in ne by (auto simp: rename1_def image_iff)
  have out_keys: "fst ` set es_out = rename_key (rename1 old new) ` {k \<in> keys_of G. fst k = old}"
    unfolding es_out_def new_edges_out_keys keys1 ..
  have in_keys: "fst ` set es_in = rename_key (rename1 old new) ` {k \<in> keys_of G. fst (snd k) = old}"
    unfolding es_in_def new_edges_in_keys keys1 ..
  have ends: "\<forall>e\<in>set (es_out @ es_in). src e \<in> set (nodes_of G2) \<and> tgt e \<in> set (nodes_of G2)"
  proof
    fix e assume "e \<in> set (es_out @ es_in)"
    then have "fst e \<in> fst ` set es_out \<union> fst ` set es_in" by auto
    then obtain k where k: "k \<in> keys_of G" and e: "fst e = rename_key (rename1 old new) k"
      unfolding out_keys in_keys by blast
    from wf_graph_keys [OF wf k] have "fst k \<in> set (nodes_of G)" "fst (snd k) \<in> set (nodes_of G)"
      by simp_all
    then have "rename1 old new (fst k) \<in> set (nodes_of G2)" "rename1 old new (fst (snd k)) \<in> set (nodes_of G2)"
      unfolding nodes2' by simp_all
    with e show "src e \<in> set (nodes_of G2) \<and> tgt e \<in> set (nodes_of G2)"
      by (simp add: src_def tgt_def rename_key_def)
  qed
  from add_edges_from_props [OF wf2 ends]
  have node': "node G' = node G2" and keys': "keys_of G' = keys_of G2 \<union> fst ` set (es_out @ es_in)"
    and wf': "wf_graph G'"
    by (simp_all add: G'_def)
  have nodes': "set (nodes_of G') = rename1 old new ` set (nodes_of G)"
    using node' nodes2' by (simp add: nodes_of_def)
  have "keys_of G2 = {k \<in> keys_of G. fst k \<noteq> old \<and> fst (snd k) \<noteq> old}"
    by (simp add: G2_def keys_of_remove_node keys1)
  then have keys'': "keys_of G' = rename_key (rename1 old new) ` keys_of G"
    unfolding keys' using out_keys in_keys rename1_image_keys [of "keys_of G" old new]
    by (simp add: image_Un)
  have attrs: "map_of (node G') =
      (map_of (node G))
        (new \<mapsto> (case map_of (node G) new of None \<Rightarrow> a | Some b \<Rightarrow> b ++ a), old := None)"
    by (simp add: node' G2_def G1_def map_of_remove_node map_of_add_node)
  from step wf' nodes' keys'' attrs show ?thesis by blast
qed

subsection \<open>Renaming in place, node after node\<close>

lemma rename_key_comp: "rename_key (f \<circ> g) k = rename_key f (rename_key g k)"
  by (simp add: rename_key_def)

lemma renaming_Cons_skip:
  assumes "m old = None \<or> m old = Some old" and "old \<notin> set rest"
  shows "renaming m (old # rest) = renaming m rest"
proof
  fix x
  show "renaming m (old # rest) x = renaming m rest x"
    using assms by (auto simp: renaming_def dict_get_def)
qed

lemma renaming_Cons_step:
  assumes "m old = Some new" and "new \<noteq> old" and "old \<notin> set rest" and "targets_fixed m"
  shows "renaming m (old # rest) = renaming m rest \<circ> rename1 old new"
proof
  fix x
  from assms(1,2,4) have "m new = None \<or> m new = Some new"
    unfolding targets_fixed_def by blast
  then have new: "dict_get m new new = new" by (auto simp: dict_get_def)
  show "renaming m (old # rest) x = (renaming m rest \<circ> rename1 old new) x"
  proof (cases "x = old")
    case True
    with assms(1) new show ?thesis by (simp add: renaming_def rename1_def dict_get_def)
  next
    case False
    then show ?thesis by (simp add: renaming_def rename1_def)
  qed
qed

lemma relabel_inplace_props:
  assumes "wf_graph G" and "distinct order" and "targets_fixed m"
    and "\<forall>x\<in>set order. \<forall>new. m x = Some new \<and> new \<noteq> x \<longrightarrow> x \<in> set (nodes_of G)"
  shows "\<exists>G'. relabel_inplace m order G = Inr G' \<and> wf_graph G' \<and>
           set (nodes_of G') = renaming m order ` set (nodes_of G) \<and>
           keys_of G' = rename_key (renaming m order) ` keys_of G \<and>
           map_of (node G') = relabel_attrs m order (map_of (node G))"
  using assms
proof (induction order arbitrary: G)
  case Nil
  have "renaming m [] = (\<lambda>x. x)" by (rule ext) (simp add: renaming_def)
  moreover have "rename_key (\<lambda>x. x) = (\<lambda>k. k)" by (rule ext) (simp add: rename_key_def)
  ultimately show ?case using Nil.prems(1) by simp
next
  case (Cons old rest)
  from Cons.prems(2) have notin: "old \<notin> set rest" and drest: "distinct rest" by simp_all
  show ?case
  proof (cases "m old = None \<or> m old = Some old")
    case True
    then have step: "relabel_step m old G = Inr G"
      by (auto simp: relabel_step_def)
    from True have attrs: "relabel_attrs m (old # rest) (map_of (node G)) = relabel_attrs m rest (map_of (node G))"
      by auto
    from Cons.prems(4)
    have "\<forall>x\<in>set rest. \<forall>new. m x = Some new \<and> new \<noteq> x \<longrightarrow> x \<in> set (nodes_of G)"
      by (meson list.set_intros(2))
    from Cons.IH [OF Cons.prems(1) drest Cons.prems(3) this]
    show ?thesis
      unfolding renaming_Cons_skip [of m old rest, OF True notin] attrs by (simp add: step)
  next
    case False
    then obtain new where new: "m old = Some new" "new \<noteq> old" by auto
    from Cons.prems(4) have "\<forall>new. m old = Some new \<and> new \<noteq> old \<longrightarrow> old \<in> set (nodes_of G)"
      by (rule bspec) simp
    with new have "old \<in> set (nodes_of G)" by blast
    then have "map_of (node G) old \<noteq> None"
      by (simp add: nodes_of_def map_of_eq_None_iff)
    then obtain a where a: "map_of (node G) old = Some a"
      by blast
    from relabel_step_props [of G old a m new, OF Cons.prems(1) a new]
    obtain G1 where G1: "relabel_step m old G = Inr G1" "wf_graph G1"
      "set (nodes_of G1) = rename1 old new ` set (nodes_of G)"
      "keys_of G1 = rename_key (rename1 old new) ` keys_of G"
      "map_of (node G1) =
         (map_of (node G))
           (new \<mapsto> (case map_of (node G) new of None \<Rightarrow> a | Some b \<Rightarrow> b ++ a), old := None)"
      by blast
    have pre: "\<forall>x\<in>set rest. \<forall>new'. m x = Some new' \<and> new' \<noteq> x \<longrightarrow> x \<in> set (nodes_of G1)"
    proof (intro ballI allI impI)
      fix x new' assume x: "x \<in> set rest" and xn: "m x = Some new' \<and> new' \<noteq> x"
      from x have "x \<in> set (old # rest)" by simp
      with Cons.prems(4) have "\<forall>new. m x = Some new \<and> new \<noteq> x \<longrightarrow> x \<in> set (nodes_of G)"
        by (rule bspec)
      with xn have "x \<in> set (nodes_of G)" by blast
      moreover from x notin have "x \<noteq> old" by blast
      ultimately have "rename1 old new x \<in> rename1 old new ` set (nodes_of G)" "rename1 old new x = x"
        by (simp_all add: rename1_def)
      then show "x \<in> set (nodes_of G1)" unfolding G1(3) by simp
    qed
    from Cons.IH [OF G1(2) drest Cons.prems(3) pre]
    obtain G' where G': "relabel_inplace m rest G1 = Inr G'" "wf_graph G'"
      "set (nodes_of G') = renaming m rest ` set (nodes_of G1)"
      "keys_of G' = rename_key (renaming m rest) ` keys_of G1"
      "map_of (node G') = relabel_attrs m rest (map_of (node G1))"
      by blast
    note comp = renaming_Cons_step [of m old new rest, OF new notin Cons.prems(3)]
    have r: "relabel_inplace m (old # rest) G = Inr G'"
      by (simp add: G1(1) G'(1))
    have n: "set (nodes_of G') = renaming m (old # rest) ` set (nodes_of G)"
      unfolding G'(3) G1(3) comp by (simp add: image_image)
    have k: "keys_of G' = rename_key (renaming m (old # rest)) ` keys_of G"
      unfolding G'(4) G1(4) comp by (simp add: image_image rename_key_comp)
    have at: "map_of (node G') = relabel_attrs m (old # rest) (map_of (node G))"
      unfolding G'(5) G1(5) using new a by simp
    from r G'(2) n k at show ?thesis by blast
  qed
qed

subsection \<open>The attributes after the renaming\<close>

lemma relabel_attrs_pre_step:
  assumes pre: "\<forall>x\<in>set (old # rest). \<forall>new. m x = Some new \<and> new \<noteq> x \<longrightarrow> A x \<noteq> None"
    and "old \<notin> set rest" and "new \<noteq> old"
  shows "\<forall>x\<in>set rest. \<forall>new'. m x = Some new' \<and> new' \<noteq> x \<longrightarrow>
           (A(new \<mapsto> v, old := None)) x \<noteq> None"
proof (intro ballI allI impI)
  fix x new' assume x: "x \<in> set rest" and xn: "m x = Some new' \<and> new' \<noteq> x"
  from x have "x \<in> set (old # rest)" by simp
  with pre have "\<forall>new. m x = Some new \<and> new \<noteq> x \<longrightarrow> A x \<noteq> None" by (rule bspec)
  with xn have "A x \<noteq> None" by blast
  moreover from x assms(2) have "x \<noteq> old" by blast
  ultimately show "(A(new \<mapsto> v, old := None)) x \<noteq> None" by simp
qed

lemma relabel_attrs_pre_skip:
  assumes pre: "\<forall>x\<in>set (old # rest). \<forall>new. m x = Some new \<and> new \<noteq> x \<longrightarrow> A x \<noteq> None"
  shows "\<forall>x\<in>set rest. \<forall>new. m x = Some new \<and> new \<noteq> x \<longrightarrow> A x \<noteq> None"
  using pre by (meson list.set_intros(2))

lemma relabel_attrs_keeps_keys:
  assumes "distinct order" and "targets_fixed m"
    and "\<forall>x\<in>set order. \<forall>new. m x = Some new \<and> new \<noteq> x \<longrightarrow> A x \<noteq> None"
    and "A n = Some a"
  shows "\<exists>a'. relabel_attrs m order A (renaming m order n) = Some a' \<and> dom a \<subseteq> dom a'"
  using assms
proof (induction order arbitrary: A n a)
  case Nil
  then show ?case by (simp add: renaming_def)
next
  case (Cons old rest)
  from Cons.prems(1) have notin: "old \<notin> set rest" and drest: "distinct rest" by simp_all
  show ?case
  proof (cases "m old = None \<or> m old = Some old")
    case True
    then have attrs: "relabel_attrs m (old # rest) A = relabel_attrs m rest A" by auto
    from Cons.IH [OF drest Cons.prems(2) relabel_attrs_pre_skip [OF Cons.prems(3)] Cons.prems(4)]
    show ?thesis
      unfolding renaming_Cons_skip [of m old rest, OF True notin] attrs .
  next
    case False
    then obtain new where new: "m old = Some new" "new \<noteq> old" by auto
    from Cons.prems(3) have "\<forall>new. m old = Some new \<and> new \<noteq> old \<longrightarrow> A old \<noteq> None"
      by (rule bspec) simp
    with new have "A old \<noteq> None" by blast
    then obtain a_old where a_old: "A old = Some a_old" by blast
    define merged where "merged = (case A new of None \<Rightarrow> a_old | Some b \<Rightarrow> b ++ a_old)"
    define A' where "A' = A(new \<mapsto> merged, old := None)"
    have attrs: "relabel_attrs m (old # rest) A = relabel_attrs m rest A'"
      using new a_old by (simp add: A'_def merged_def)
    have pre': "\<forall>x\<in>set rest. \<forall>new'. m x = Some new' \<and> new' \<noteq> x \<longrightarrow> A' x \<noteq> None"
      unfolding A'_def using Cons.prems(3) notin new(2) by (rule relabel_attrs_pre_step)
    have "\<exists>a1. A' (rename1 old new n) = Some a1 \<and> dom a \<subseteq> dom a1"
    proof (cases "n = old")
      case True
      with Cons.prems(4) a_old have "a = a_old" by simp
      then have "dom a \<subseteq> dom merged"
        by (auto simp: merged_def split: option.splits)
      with True new(2) show ?thesis by (simp add: A'_def rename1_def)
    next
      case False
      show ?thesis
      proof (cases "n = new")
        case True
        with Cons.prems(4) have "merged = a ++ a_old" by (simp add: merged_def)
        then have "dom a \<subseteq> dom merged" by auto
        with True new(2) show ?thesis by (simp add: A'_def rename1_def)
      next
        case nn: False
        with False Cons.prems(4) show ?thesis by (simp add: A'_def rename1_def)
      qed
    qed
    then obtain a1 where a1: "A' (rename1 old new n) = Some a1" "dom a \<subseteq> dom a1" by blast
    from Cons.IH [OF drest Cons.prems(2) pre' a1(1)]
    obtain a' where "relabel_attrs m rest A' (renaming m rest (rename1 old new n)) = Some a'"
      "dom a1 \<subseteq> dom a'" by blast
    with a1(2) show ?thesis
      unfolding attrs renaming_Cons_step [of m old new rest, OF new notin Cons.prems(2)]
      by auto
  qed
qed

lemma relabel_attrs_origin:
  assumes "distinct order" and "targets_fixed m"
    and "\<forall>x\<in>set order. \<forall>new. m x = Some new \<and> new \<noteq> x \<longrightarrow> A x \<noteq> None"
    and "relabel_attrs m order A r = Some a'" and "a' key = Some val"
  shows "\<exists>n a. A n = Some a \<and> renaming m order n = r \<and> a key = Some val"
  using assms
proof (induction order arbitrary: A)
  case Nil
  then have "A r = Some a' \<and> renaming m [] r = r \<and> a' key = Some val"
    by (simp add: renaming_def)
  then show ?case by blast
next
  case (Cons old rest)
  from Cons.prems(1) have notin: "old \<notin> set rest" and drest: "distinct rest" by simp_all
  show ?case
  proof (cases "m old = None \<or> m old = Some old")
    case True
    then have attrs: "relabel_attrs m (old # rest) A = relabel_attrs m rest A" by auto
    from Cons.IH [OF drest Cons.prems(2) relabel_attrs_pre_skip [OF Cons.prems(3)]
        Cons.prems(4) [unfolded attrs] Cons.prems(5)]
    show ?thesis
      unfolding renaming_Cons_skip [of m old rest, OF True notin] .
  next
    case False
    then obtain new where new: "m old = Some new" "new \<noteq> old" by auto
    from Cons.prems(3) have "\<forall>new. m old = Some new \<and> new \<noteq> old \<longrightarrow> A old \<noteq> None"
      by (rule bspec) simp
    with new have "A old \<noteq> None" by blast
    then obtain a_old where a_old: "A old = Some a_old" by blast
    define merged where "merged = (case A new of None \<Rightarrow> a_old | Some b \<Rightarrow> b ++ a_old)"
    define A' where "A' = A(new \<mapsto> merged, old := None)"
    have attrs: "relabel_attrs m (old # rest) A = relabel_attrs m rest A'"
      using new a_old by (simp add: A'_def merged_def)
    have pre': "\<forall>x\<in>set rest. \<forall>new'. m x = Some new' \<and> new' \<noteq> x \<longrightarrow> A' x \<noteq> None"
      unfolding A'_def using Cons.prems(3) notin new(2) by (rule relabel_attrs_pre_step)
    note comp = renaming_Cons_step [of m old new rest, OF new notin Cons.prems(2)]
    from Cons.IH [OF drest Cons.prems(2) pre' Cons.prems(4) [unfolded attrs] Cons.prems(5)]
    obtain n1 a1 where n1: "A' n1 = Some a1" "renaming m rest n1 = r" "a1 key = Some val"
      by blast
    show ?thesis
    proof (cases "n1 = new")
      case True
      with n1(1) have a1: "a1 = merged" by (simp add: A'_def new(2))
      have old_r: "renaming m (old # rest) old = r"
        unfolding comp using n1(2) True by (simp add: rename1_def)
      have new_r: "renaming m (old # rest) new = r"
        unfolding comp using n1(2) True new(2) by (simp add: rename1_def)
      show ?thesis
      proof (cases "a_old key = Some val")
        case True
        with a_old old_r show ?thesis by blast
      next
        case False
        with n1(3) a1 obtain b where "A new = Some b" "b key = Some val"
          by (auto simp: merged_def map_add_Some_iff split: option.splits)
        with new_r show ?thesis by blast
      qed
    next
      case False
      with n1(1) have "n1 \<noteq> old" "A n1 = Some a1"
        by (auto simp: A'_def split: if_splits)
      moreover from this(1) n1(2) have "renaming m (old # rest) n1 = r"
        unfolding comp by (simp add: rename1_def)
      ultimately show ?thesis using n1(3) by blast
    qed
  qed
qed

subsection \<open>The attribute update of cell 17 and the library call of cell 18\<close>

lemma map_node_data_Inr:
  "map_node_data orth mapping nd = Inr nd' \<Longrightarrow>
     nd' = map (\<lambda>e. (fst e, node_data_after orth mapping (fst e) (snd e))) nd"
proof (induction nd arbitrary: nd')
  case Nil
  then show ?case by simp
next
  case (Cons e nd)
  obtain name data where e: "e = (name, data)" by (cases e)
  from Cons.prems obtain rest' where rest: "map_node_data orth mapping nd = Inr rest'"
    unfolding e by (auto split: option.splits if_splits sum.splits)
  from Cons.prems rest have "nd' = (name, node_data_after orth mapping name data) # rest'"
    unfolding e by (auto simp: node_data_after_def split: option.splits if_splits)
  with Cons.IH [OF rest] show ?case by (simp add: e)
qed

lemma map_node_data_succeeds:
  assumes "\<forall>e\<in>set nd. snd e ''type'' \<noteq> None"
    and "\<forall>r\<in>ran mapping. map_of (node orth) r \<noteq> None"
  shows "\<exists>nd'. map_node_data orth mapping nd = Inr nd'"
  using assms(1)
proof (induction nd)
  case Nil
  then show ?case by simp
next
  case (Cons e nd)
  obtain name data where e: "e = (name, data)" by (cases e)
  from Cons.prems obtain t where t: "data ''type'' = Some t" by (auto simp: e)
  from Cons.prems have "\<forall>e\<in>set nd. snd e ''type'' \<noteq> None" by simp
  from Cons.IH [OF this] obtain rest' where rest: "map_node_data orth mapping nd = Inr rest'"
    by blast
  show ?case
  proof (cases "t \<in> set [''Gene'', ''RNA'', ''Protein''] \<and> mapping name \<noteq> None")
    case True
    then obtain r where r: "mapping name = Some r" by blast
    then have "r \<in> ran mapping" by (rule ranI)
    with assms(2) obtain a where "map_of (node orth) r = Some a" by blast
    with True r t rest show ?thesis by (simp add: e)
  next
    case False
    with t rest show ?thesis by (auto simp: e)
  qed
qed

lemma map_of_map_snd:
  "map_of (map (\<lambda>e. (fst e, h (fst e) (snd e))) xs) k = map_option (h k) (map_of xs k)"
  by (induction xs) auto

lemma map_of_restrict_nodes:
  "map_of (map (\<lambda>n. (n, f n)) ns) x = (if x \<in> set ns then Some (f x) else None)"
  by (induction ns) auto

lemma chain_reaches_fixed:
  "m c = None \<or> m c = Some c \<Longrightarrow> \<not> chain_reaches m k c t"
  by (cases k) auto

lemma targets_fixed_no_cycle:
  assumes "targets_fixed m"
  shows "\<not> has_cycle m ns"
proof -
  have "\<not> chain_reaches m k n n" for k n
  proof (cases k)
    case 0
    then show ?thesis by simp
  next
    case (Suc k')
    show ?thesis
    proof (cases "m n")
      case None
      then show ?thesis by (simp add: Suc)
    next
      case (Some nxt)
      show ?thesis
      proof (cases "nxt = n")
        case True
        with Some show ?thesis by (simp add: Suc)
      next
        case False
        with assms Some have "m nxt = None \<or> m nxt = Some nxt"
          unfolding targets_fixed_def by blast
        then have "\<not> chain_reaches m k' nxt n" by (rule chain_reaches_fixed)
        with Some False show ?thesis by (simp add: Suc)
      qed
    qed
  qed
  then show ?thesis by (simp add: has_cycle_def)
qed

lemma targets_fixed_restrict:
  assumes "\<And>x. f (f x) = f x"
  shows "targets_fixed (map_of (map (\<lambda>n. (n, f n)) ns))"
  unfolding targets_fixed_def
proof (intro allI impI)
  fix x new
  assume x: "map_of (map (\<lambda>n. (n, f n)) ns) x = Some new" and "new \<noteq> x"
  then have "new = f x" by (simp add: map_of_restrict_nodes split: if_splits)
  with assms [of x] have "f new = new" by simp
  then show "map_of (map (\<lambda>n. (n, f n)) ns) new = None \<or>
             map_of (map (\<lambda>n. (n, f n)) ns) new = Some new"
    by (simp add: map_of_restrict_nodes)
qed

lemma relabel_nodes_props:
  assumes wf: "wf_graph G" and d: "distinct order" and sub: "set (nodes_of G) \<subseteq> set order"
    and idem: "\<And>x. f (f x) = f x"
  shows "\<exists>G'. relabel_nodes order f G = Inr G' \<and> wf_graph G' \<and>
           set (nodes_of G') = f ` set (nodes_of G) \<and>
           keys_of G' = rename_key f ` keys_of G \<and>
           (\<forall>n a. map_of (node G) n = Some a \<longrightarrow>
              (\<exists>a'. map_of (node G') (f n) = Some a' \<and> dom a \<subseteq> dom a')) \<and>
           (\<forall>r a' key val. map_of (node G') r = Some a' \<and> a' key = Some val \<longrightarrow>
              (\<exists>n a. map_of (node G) n = Some a \<and> f n = r \<and> a key = Some val))"
proof -
  define m where "m = map_of (map (\<lambda>n. (n, f n)) (nodes_of G))"
  have m: "m x = (if x \<in> set (nodes_of G) then Some (f x) else None)" for x
    by (simp add: m_def map_of_restrict_nodes)
  have tf: "targets_fixed m" unfolding m_def using idem by (rule targets_fixed_restrict)
  have pre: "\<forall>x\<in>set order. \<forall>new. m x = Some new \<and> new \<noteq> x \<longrightarrow> x \<in> set (nodes_of G)"
  proof (intro ballI allI impI)
    fix x new assume "m x = Some new \<and> new \<noteq> x"
    then have "m x \<noteq> None" by simp
    then show "x \<in> set (nodes_of G)" by (simp add: m split: if_splits)
  qed
  have dom_nodes: "map_of (node G) x \<noteq> None \<longleftrightarrow> x \<in> set (nodes_of G)" for x
    by (simp add: nodes_of_def map_of_eq_None_iff)
  have pre': "\<forall>x\<in>set order. \<forall>new. m x = Some new \<and> new \<noteq> x \<longrightarrow> map_of (node G) x \<noteq> None"
    using pre dom_nodes by blast
  have ren: "renaming m order x = f x" if "x \<in> set (nodes_of G)" for x
    using that sub by (auto simp: renaming_def dict_get_def m)
  from relabel_inplace_props [OF wf d tf pre]
  obtain G' where G': "relabel_inplace m order G = Inr G'" "wf_graph G'"
    "set (nodes_of G') = renaming m order ` set (nodes_of G)"
    "keys_of G' = rename_key (renaming m order) ` keys_of G"
    "map_of (node G') = relabel_attrs m order (map_of (node G))"
    by blast
  have r: "relabel_nodes order f G = Inr G'"
    using targets_fixed_no_cycle [OF tf, of "nodes_of G"] G'(1)
    by (simp add: relabel_nodes_def m_def [symmetric])
  have n: "set (nodes_of G') = f ` set (nodes_of G)"
    unfolding G'(3) by (rule image_cong) (simp_all add: ren)
  have k: "keys_of G' = rename_key f ` keys_of G"
    unfolding G'(4)
  proof (rule image_cong)
    fix k assume "k \<in> keys_of G"
    from wf_graph_keys [OF wf this] show "rename_key (renaming m order) k = rename_key f k"
      by (simp add: rename_key_def ren)
  qed simp
  have q1: "\<exists>a'. map_of (node G') (f n) = Some a' \<and> dom a \<subseteq> dom a'"
    if "map_of (node G) n = Some a" for n a
  proof -
    from that dom_nodes [of n] have "n \<in> set (nodes_of G)" by simp
    with relabel_attrs_keeps_keys [OF d tf pre' that] show ?thesis
      by (simp add: G'(5) ren)
  qed
  have q2: "\<exists>n a. map_of (node G) n = Some a \<and> f n = r \<and> a key = Some val"
    if "map_of (node G') r = Some a'" and "a' key = Some val" for r a' key val
  proof -
    from relabel_attrs_origin [OF d tf pre' that(1) [unfolded G'(5)] that(2)]
    obtain n a where na: "map_of (node G) n = Some a" "renaming m order n = r" "a key = Some val"
      by blast
    from na(1) dom_nodes [of n] have "n \<in> set (nodes_of G)" by simp
    with na(2) ren [of n] have "f n = r" by simp
    with na(1,3) show ?thesis by blast
  qed
  show ?thesis
  proof (intro exI [of _ G'] conjI allI impI)
    show "relabel_nodes order f G = Inr G'" by (rule r)
    show "wf_graph G'" by (rule G'(2))
    show "set (nodes_of G') = f ` set (nodes_of G)" by (rule n)
    show "keys_of G' = rename_key f ` keys_of G" by (rule k)
  next
    fix n a assume "map_of (node G) n = Some a"
    then show "\<exists>a'. map_of (node G') (f n) = Some a' \<and> dom a \<subseteq> dom a'" by (rule q1)
  next
    fix r a' key val assume "map_of (node G') r = Some a' \<and> a' key = Some val"
    then have "map_of (node G') r = Some a'" "a' key = Some val" by simp_all
    then show "\<exists>n a. map_of (node G) n = Some a \<and> f n = r \<and> a key = Some val" by (rule q2)
  qed
qed

subsection \<open>Cells 17 and 18 with the canonical mapping\<close>

lemma mapping_value_is_key:
  assumes "scan_of G comps" and "wf_graph G" and "canonical_mapping G comps k = Some r"
  shows "r \<in> set (nodes_of G)" and "canonical_mapping G comps r = Some r"
proof -
  from canonical_mapping_SomeD(2) [OF assms(1,3)]
  obtain i where i: "i < length comps" and r: "last_mgi (comps ! i) = Some r" by blast
  from last_mgi_Some [OF r] have rin: "r \<in> set (comps ! i)" by simp
  with i have "r \<in> \<Union>(set ` set comps)" by auto
  then show node: "r \<in> set (nodes_of G)"
    using scan_Union [OF assms(1)] wf_connected_nodes [OF assms(2)] by simp
  from canonical_mapping_SomeI [OF assms(1) node i rin r]
  show "canonical_mapping G comps r = Some r" .
qed

lemma relabel_name_idem:
  assumes "scan_of G comps"
  shows "relabel_name (canonical_mapping G comps) (relabel_name (canonical_mapping G comps) x)
           = relabel_name (canonical_mapping G comps) x"
proof (cases "canonical_mapping G comps x")
  case None
  then show ?thesis by (simp add: relabel_name_def)
next
  case (Some r)
  from canonical_mapping_SomeD(2) [OF assms Some]
  obtain i where i: "i < length comps" and r: "last_mgi (comps ! i) = Some r" by blast
  from last_mgi_Some [OF r] have rin: "r \<in> set (comps ! i)" by simp
  have "relabel_name (canonical_mapping G comps) r = r"
  proof (cases "r \<in> set (nodes_of G)")
    case True
    from canonical_mapping_SomeI [OF assms True i rin r] show ?thesis
      by (simp add: relabel_name_def)
  next
    case False
    then have "canonical_mapping G comps r = None" by (simp add: canonical_mapping_eq)
    then show ?thesis by (simp add: relabel_name_def)
  qed
  with Some show ?thesis by (simp add: relabel_name_def)
qed

lemma apply_mapping_props:
  assumes scan: "scan_of orth comps" and wfo: "wf_graph orth" and wfg: "wf_graph g"
    and d: "distinct order" and sub: "set (nodes_of g) \<subseteq> set order"
    and typed: "\<forall>e\<in>set (node g). snd e ''type'' \<noteq> None"
  shows "\<exists>g'. apply_mapping order orth (canonical_mapping orth comps) g = Inr g' \<and> wf_graph g' \<and>
           set (nodes_of g') = relabel_name (canonical_mapping orth comps) ` set (nodes_of g) \<and>
           keys_of g' = rename_key (relabel_name (canonical_mapping orth comps)) ` keys_of g \<and>
           (\<forall>n a. map_of (node g) n = Some a \<longrightarrow>
              (\<exists>a'. map_of (node g') (relabel_name (canonical_mapping orth comps) n) = Some a' \<and>
                    dom (node_data_after orth (canonical_mapping orth comps) n a) \<subseteq> dom a')) \<and>
           (\<forall>r a' key val. map_of (node g') r = Some a' \<and> a' key = Some val \<longrightarrow>
              (\<exists>n a. map_of (node g) n = Some a \<and>
                     relabel_name (canonical_mapping orth comps) n = r \<and>
                     node_data_after orth (canonical_mapping orth comps) n a key = Some val))"
proof -
  let ?M = "canonical_mapping orth comps"
  let ?F = "relabel_name ?M"
  have ran: "\<forall>r\<in>ran ?M. map_of (node orth) r \<noteq> None"
  proof
    fix r assume "r \<in> ran ?M"
    then obtain k where "?M k = Some r" by (auto simp: ran_def)
    from mapping_value_is_key(1) [OF scan wfo this]
    show "map_of (node orth) r \<noteq> None" by (simp add: nodes_of_def map_of_eq_None_iff)
  qed
  from map_node_data_succeeds [OF typed ran]
  obtain nd where nd: "map_node_data orth ?M (node g) = Inr nd" by blast
  from map_node_data_Inr [OF nd]
  have nd_eq: "nd = map (\<lambda>e. (fst e, node_data_after orth ?M (fst e) (snd e))) (node g)" .
  define g1 where "g1 = g\<lparr>node := nd\<rparr>"
  have fst_nd: "map fst nd = map fst (node g)" by (simp add: nd_eq comp_def)
  have nodes1: "nodes_of g1 = nodes_of g" by (simp add: g1_def nodes_of_def fst_nd)
  have keys1: "keys_of g1 = keys_of g" by (simp add: g1_def keys_of_def)
  have wf1: "wf_graph g1"
    using wfg unfolding wf_graph_def nodes1 by (simp add: g1_def fst_nd endpoints_def)
  have attrs1: "map_of (node g1) n = map_option (node_data_after orth ?M n) (map_of (node g) n)" for n
    unfolding g1_def nd_eq by (simp add: map_of_map_snd)
  from relabel_nodes_props [OF wf1 d sub [folded nodes1] relabel_name_idem [OF scan]]
  obtain g' where all: "relabel_nodes order ?F g1 = Inr g' \<and> wf_graph g' \<and>
    set (nodes_of g') = ?F ` set (nodes_of g1) \<and>
    keys_of g' = rename_key ?F ` keys_of g1 \<and>
    (\<forall>n a. map_of (node g1) n = Some a \<longrightarrow>
        (\<exists>a'. map_of (node g') (?F n) = Some a' \<and> dom a \<subseteq> dom a')) \<and>
    (\<forall>r a' key val. map_of (node g') r = Some a' \<and> a' key = Some val \<longrightarrow>
        (\<exists>n a. map_of (node g1) n = Some a \<and> ?F n = r \<and> a key = Some val))" ..
  note g'1 = all [THEN conjunct1]
  note g'2 = all [THEN conjunct2, THEN conjunct1]
  note g'3 = all [THEN conjunct2, THEN conjunct2, THEN conjunct1]
  note g'4 = all [THEN conjunct2, THEN conjunct2, THEN conjunct2, THEN conjunct1]
  note g'5 = all [THEN conjunct2, THEN conjunct2, THEN conjunct2, THEN conjunct2, THEN conjunct1, rule_format]
  note g'6 = all [THEN conjunct2, THEN conjunct2, THEN conjunct2, THEN conjunct2, THEN conjunct2, rule_format]
  show ?thesis
  proof (intro exI [of _ g'] conjI allI impI)
    show "apply_mapping order orth ?M g = Inr g'"
      by (simp add: apply_mapping_def nd g'1 [unfolded g1_def])
    show "wf_graph g'" by (rule g'2)
    show "set (nodes_of g') = ?F ` set (nodes_of g)" using g'3 by (simp add: nodes1)
    show "keys_of g' = rename_key ?F ` keys_of g" using g'4 by (simp add: keys1)
  next
    fix n a assume "map_of (node g) n = Some a"
    then have "map_of (node g1) n = Some (node_data_after orth ?M n a)" by (simp add: attrs1)
    then show "\<exists>a'. map_of (node g') (?F n) = Some a' \<and>
        dom (node_data_after orth ?M n a) \<subseteq> dom a'"
      by (rule g'5)
  next
    fix r a' key val assume "map_of (node g') r = Some a' \<and> a' key = Some val"
    from g'6 [OF this]
    obtain n a1 where n: "map_of (node g1) n = Some a1" "?F n = r" "a1 key = Some val"
      by blast
    from n(1) obtain a where "map_of (node g) n = Some a" "a1 = node_data_after orth ?M n a"
      by (auto simp: attrs1)
    with n(2,3) show "\<exists>n a. map_of (node g) n = Some a \<and> ?F n = r \<and>
        node_data_after orth ?M n a key = Some val"
      by blast
  qed
qed

lemma apply_mapping_result:
  assumes "scan_of orth comps" and "wf_graph orth" and "wf_graph g"
    and "distinct order" and "set (nodes_of g) \<subseteq> set order"
    and "\<forall>e\<in>set (node g). snd e ''type'' \<noteq> None"
  obtains g' where
    "apply_mapping order orth (canonical_mapping orth comps) g = Inr g'"
    "wf_graph g'"
    "set (nodes_of g') = relabel_name (canonical_mapping orth comps) ` set (nodes_of g)"
    "keys_of g' = rename_key (relabel_name (canonical_mapping orth comps)) ` keys_of g"
    "\<And>n a. map_of (node g) n = Some a \<Longrightarrow>
       \<exists>a'. map_of (node g') (relabel_name (canonical_mapping orth comps) n) = Some a' \<and>
            dom (node_data_after orth (canonical_mapping orth comps) n a) \<subseteq> dom a'"
    "\<And>r a' key val. map_of (node g') r = Some a' \<Longrightarrow> a' key = Some val \<Longrightarrow>
       \<exists>n a. map_of (node g) n = Some a \<and>
             relabel_name (canonical_mapping orth comps) n = r \<and>
             node_data_after orth (canonical_mapping orth comps) n a key = Some val"
proof -
  let ?M = "canonical_mapping orth comps"
  let ?F = "relabel_name ?M"
  from apply_mapping_props [OF assms]
  obtain g' where all: "apply_mapping order orth ?M g = Inr g' \<and> wf_graph g' \<and>
           set (nodes_of g') = ?F ` set (nodes_of g) \<and>
           keys_of g' = rename_key ?F ` keys_of g \<and>
           (\<forall>n a. map_of (node g) n = Some a \<longrightarrow>
              (\<exists>a'. map_of (node g') (?F n) = Some a' \<and>
                    dom (node_data_after orth ?M n a) \<subseteq> dom a')) \<and>
           (\<forall>r a' key val. map_of (node g') r = Some a' \<and> a' key = Some val \<longrightarrow>
              (\<exists>n a. map_of (node g) n = Some a \<and> ?F n = r \<and>
                     node_data_after orth ?M n a key = Some val))" ..
  note p1 = all [THEN conjunct1]
  note p2 = all [THEN conjunct2, THEN conjunct1]
  note p3 = all [THEN conjunct2, THEN conjunct2, THEN conjunct1]
  note p4 = all [THEN conjunct2, THEN conjunct2, THEN conjunct2, THEN conjunct1]
  note p5 = all [THEN conjunct2, THEN conjunct2, THEN conjunct2, THEN conjunct2, THEN conjunct1, rule_format]
  note p6 = all [THEN conjunct2, THEN conjunct2, THEN conjunct2, THEN conjunct2, THEN conjunct2, rule_format]
  show thesis
  proof (rule that [of g'])
    show "apply_mapping order orth ?M g = Inr g'" by (rule p1)
    show "wf_graph g'" by (rule p2)
    show "set (nodes_of g') = ?F ` set (nodes_of g)" by (rule p3)
    show "keys_of g' = rename_key ?F ` keys_of g" by (rule p4)
    show "\<exists>a'. map_of (node g') (?F n) = Some a' \<and> dom (node_data_after orth ?M n a) \<subseteq> dom a'"
      if "map_of (node g) n = Some a" for n a
      using that by (rule p5)
    show "\<exists>n a. map_of (node g) n = Some a \<and> ?F n = r \<and> node_data_after orth ?M n a key = Some val"
      if "map_of (node g') r = Some a'" and "a' key = Some val" for r a' key val
      using that by (intro p6 conjI)
  qed
qed

subsection \<open>Nodes that are no keys (C9)\<close>

lemma attrs_eqI:
  fixes a a' :: attrs
  assumes "dom a \<subseteq> dom a'" and "\<And>key val. a' key = Some val \<Longrightarrow> a key = Some val"
  shows "a' = a"
proof
  fix key
  show "a' key = a key"
  proof (cases "a' key")
    case None
    with assms(1) have "a key = None" by blast
    with None show ?thesis by simp
  next
    case (Some val)
    with assms(2) show ?thesis by simp
  qed
qed

lemma dom_node_data_after: "dom d \<subseteq> dom (node_data_after orth mapping n d)"
  by (auto simp: node_data_after_def split: option.splits)

lemma node_data_after_unmapped: "mapping n = None \<Longrightarrow> node_data_after orth mapping n a = a"
  by (simp add: node_data_after_def split: option.splits)

lemma unmapped_preimage:
  assumes scan: "scan_of orth comps" and wfo: "wf_graph orth"
    and n: "canonical_mapping orth comps n = None"
    and x: "relabel_name (canonical_mapping orth comps) x = n"
  shows "x = n"
proof (cases "canonical_mapping orth comps x")
  case None
  with x show ?thesis by (simp add: relabel_name_def)
next
  case (Some r)
  with x have "r = n" by (simp add: relabel_name_def)
  with mapping_value_is_key(2) [OF scan wfo Some] n show ?thesis by simp
qed

text \<open>
  C9. Every node of the target graph that is not a key of the canonical mapping comes
  out of the attribute update and the relabeling as it went in: it is still a node
  under its own name, and its attribute dictionary is the one it had. A node that is
  not a key raises no error: when every node of the target graph carries a \<open>type\<close>
  attribute, which is the only thing the attribute update reads before it tests the
  mapping, the two cells return a graph. Assumed are the invariant of the two graphs and
  that the library takes every node of the target graph once when it renames.
\<close>

theorem unmapped_nodes_untouched:
  assumes "scan_of orth comps" and "wf_graph orth" and "wf_graph g"
    and "distinct order" and "set (nodes_of g) \<subseteq> set order"
    and "\<forall>e\<in>set (node g). snd e ''type'' \<noteq> None"
  shows "\<exists>g'. apply_mapping order orth (canonical_mapping orth comps) g = Inr g' \<and>
           (\<forall>n\<in>set (nodes_of g). canonical_mapping orth comps n = None \<longrightarrow>
              n \<in> set (nodes_of g') \<and> map_of (node g') n = map_of (node g) n)"
proof -
  let ?M = "canonical_mapping orth comps"
  let ?F = "relabel_name ?M"
  show ?thesis
  proof (rule apply_mapping_result [OF assms])
  fix g'
  assume r: "apply_mapping order orth ?M g = Inr g'"
    and nodes: "set (nodes_of g') = ?F ` set (nodes_of g)"
    and q1: "\<And>n a. map_of (node g) n = Some a \<Longrightarrow>
       \<exists>a'. map_of (node g') (?F n) = Some a' \<and> dom (node_data_after orth ?M n a) \<subseteq> dom a'"
    and q2: "\<And>r a' key val. map_of (node g') r = Some a' \<Longrightarrow> a' key = Some val \<Longrightarrow>
       \<exists>n a. map_of (node g) n = Some a \<and> ?F n = r \<and> node_data_after orth ?M n a key = Some val"
  have "n \<in> set (nodes_of g') \<and> map_of (node g') n = map_of (node g) n"
    if n: "n \<in> set (nodes_of g)" and un: "?M n = None" for n
  proof -
    from un have Fn: "?F n = n" by (simp add: relabel_name_def)
    with n nodes have in': "n \<in> set (nodes_of g')" by (metis image_eqI)
    from n have "map_of (node g) n \<noteq> None" by (simp add: nodes_of_def map_of_eq_None_iff)
    then obtain a where a: "map_of (node g) n = Some a" by blast
    from q1 [OF a] Fn un obtain a' where a': "map_of (node g') n = Some a'" "dom a \<subseteq> dom a'"
      by (auto simp: node_data_after_unmapped)
    have "a key = Some val" if "a' key = Some val" for key val
    proof -
      from q2 [OF a'(1) that] obtain x ax where x: "map_of (node g) x = Some ax" "?F x = n"
        "node_data_after orth ?M x ax key = Some val" by blast
      from unmapped_preimage [OF assms(1,2) un x(2)] have "x = n" .
      with x a un show ?thesis by (simp add: node_data_after_unmapped)
    qed
    with a'(2) have "a' = a" by (rule attrs_eqI)
    with a a' in' show ?thesis by simp
  qed
  with r show ?thesis by blast
  qed
qed

subsection \<open>The data of the edges after the renaming\<close>

lemma edges_mergedI:
  assumes "\<And>k d. map_of (edge G) k = Some d \<Longrightarrow>
             \<exists>d'. map_of (edge G') (rename_key f k) = Some d' \<and> dom d \<subseteq> dom d'"
    and "\<And>k' d' key val. map_of (edge G') k' = Some d' \<Longrightarrow> d' key = Some val \<Longrightarrow>
             \<exists>k d. map_of (edge G) k = Some d \<and> rename_key f k = k' \<and> d key = Some val"
  shows "edges_merged f G G'"
  unfolding edges_merged_def using assms by blast

lemma edges_merged_keeps:
  "edges_merged f G G' \<Longrightarrow> map_of (edge G) k = Some d \<Longrightarrow>
     \<exists>d'. map_of (edge G') (rename_key f k) = Some d' \<and> dom d \<subseteq> dom d'"
  unfolding edges_merged_def by blast

lemma edges_merged_origin:
  "edges_merged f G G' \<Longrightarrow> map_of (edge G') k' = Some d' \<Longrightarrow> d' key = Some val \<Longrightarrow>
     \<exists>k d. map_of (edge G) k = Some d \<and> rename_key f k = k' \<and> d key = Some val"
  unfolding edges_merged_def by blast

lemma edges_merged_refl: "edges_merged (\<lambda>x. x) G G"
proof (rule edges_mergedI)
  fix k d assume "map_of (edge G) k = Some d"
  then show "\<exists>d'. map_of (edge G) (rename_key (\<lambda>x. x) k) = Some d' \<and> dom d \<subseteq> dom d'"
    by (simp add: rename_key_def)
next
  fix k' d' key val assume "map_of (edge G) k' = Some d'" and "d' key = Some val"
  then have "map_of (edge G) k' = Some d' \<and> rename_key (\<lambda>x. x) k' = k' \<and> d' key = Some val"
    by (simp add: rename_key_def)
  then show "\<exists>k d. map_of (edge G) k = Some d \<and> rename_key (\<lambda>x. x) k = k' \<and> d key = Some val"
    by blast
qed

lemma edges_merged_trans:
  assumes fg: "edges_merged f G G1" and h: "edges_merged h G1 G'"
  shows "edges_merged (h \<circ> f) G G'"
proof (rule edges_mergedI)
  fix k d assume "map_of (edge G) k = Some d"
  from edges_merged_keeps [OF fg this]
  obtain d1 where d1: "map_of (edge G1) (rename_key f k) = Some d1" "dom d \<subseteq> dom d1" by blast
  from edges_merged_keeps [OF h d1(1)]
  obtain d' where d': "map_of (edge G') (rename_key h (rename_key f k)) = Some d'" "dom d1 \<subseteq> dom d'"
    by blast
  from d1(2) d'(2) have "dom d \<subseteq> dom d'" by (rule subset_trans)
  with d'(1) show "\<exists>d'. map_of (edge G') (rename_key (h \<circ> f) k) = Some d' \<and> dom d \<subseteq> dom d'"
    by (simp add: rename_key_comp)
next
  fix k' d' key val assume "map_of (edge G') k' = Some d'" and "d' key = Some val"
  from edges_merged_origin [OF h this]
  obtain k1 d1 where k1: "map_of (edge G1) k1 = Some d1" "rename_key h k1 = k'" "d1 key = Some val"
    by blast
  from edges_merged_origin [OF fg k1(1,3)]
  obtain k d where k: "map_of (edge G) k = Some d" "rename_key f k = k1" "d key = Some val"
    by blast
  from k(2) k1(2) have "rename_key (h \<circ> f) k = k'" by (simp add: rename_key_comp)
  with k(1,3)
  show "\<exists>k d. map_of (edge G) k = Some d \<and> rename_key (h \<circ> f) k = k' \<and> d key = Some val"
    by blast
qed

lemma map_of_keys_of: "map_of (edge G) k = Some d \<Longrightarrow> k \<in> keys_of G"
  unfolding keys_of_def by (metis map_of_SomeD fst_conv image_eqI)

lemma edges_merged_cong:
  assumes "edges_merged f G G'" and "\<And>k. k \<in> keys_of G \<Longrightarrow> rename_key f k = rename_key h k"
  shows "edges_merged h G G'"
proof (rule edges_mergedI)
  fix k d assume k: "map_of (edge G) k = Some d"
  from edges_merged_keeps [OF assms(1) k] assms(2) [OF map_of_keys_of [OF k]]
  show "\<exists>d'. map_of (edge G') (rename_key h k) = Some d' \<and> dom d \<subseteq> dom d'" by simp
next
  fix k' d' key val assume "map_of (edge G') k' = Some d'" and "d' key = Some val"
  from edges_merged_origin [OF assms(1) this]
  obtain k d where k: "map_of (edge G) k = Some d" "rename_key f k = k'" "d key = Some val"
    by blast
  from k(2) assms(2) [OF map_of_keys_of [OF k(1)]] have "rename_key h k = k'" by simp
  with k(1,3)
  show "\<exists>k d. map_of (edge G) k = Some d \<and> rename_key h k = k' \<and> d key = Some val" by blast
qed

lemma map_of_add_edge:
  "map_of (edge (add_edge u v key d G)) =
     (map_of (edge G))
       ((u, v, key) \<mapsto> (case map_of (edge G) (u, v, key) of None \<Rightarrow> d | Some d0 \<Rightarrow> d0 ++ d))"
  by (simp add: add_edge_def Let_def edge_ensure_node update_conv')

lemma add_edge_keeps:
  assumes "map_of (edge G) k = Some d"
  shows "\<exists>d'. map_of (edge (add_edge u v key d0 G)) k = Some d' \<and> dom d \<subseteq> dom d'"
proof (cases "k = (u, v, key)")
  case True
  with assms have "map_of (edge (add_edge u v key d0 G)) k = Some (d ++ d0)"
    by (simp add: map_of_add_edge)
  moreover have "dom d \<subseteq> dom (d ++ d0)" by simp
  ultimately show ?thesis by blast
next
  case False
  with assms have "map_of (edge (add_edge u v key d0 G)) k = Some d"
    by (simp add: map_of_add_edge)
  then show ?thesis by blast
qed

lemma add_edge_new:
  "\<exists>d'. map_of (edge (add_edge u v key d0 G)) (u, v, key) = Some d' \<and> dom d0 \<subseteq> dom d'"
proof (cases "map_of (edge G) (u, v, key)")
  case None
  then have "map_of (edge (add_edge u v key d0 G)) (u, v, key) = Some d0"
    by (simp add: map_of_add_edge)
  then show ?thesis by blast
next
  case (Some d)
  then have "map_of (edge (add_edge u v key d0 G)) (u, v, key) = Some (d ++ d0)"
    by (simp add: map_of_add_edge)
  moreover have "dom d0 \<subseteq> dom (d ++ d0)" by simp
  ultimately show ?thesis by blast
qed

lemma add_edge_origin:
  assumes "map_of (edge (add_edge u v key d0 G)) k = Some d'" and "d' a = Some val"
  shows "(\<exists>d. map_of (edge G) k = Some d \<and> d a = Some val) \<or> (k = (u, v, key) \<and> d0 a = Some val)"
proof (cases "k = (u, v, key)")
  case False
  with assms show ?thesis by (simp add: map_of_add_edge)
next
  case True
  show ?thesis
  proof (cases "map_of (edge G) (u, v, key)")
    case None
    with assms True have "d' = d0" by (simp add: map_of_add_edge)
    with assms(2) True show ?thesis by simp
  next
    case (Some d)
    with assms True have "d' = d ++ d0" by (simp add: map_of_add_edge)
    with assms(2) have "d0 a = Some val \<or> d a = Some val" by (auto simp: map_add_Some_iff)
    with Some True show ?thesis by auto
  qed
qed

lemma add_edges_from_keeps:
  "map_of (edge G) k = Some d \<Longrightarrow>
     \<exists>d'. map_of (edge (add_edges_from es G)) k = Some d' \<and> dom d \<subseteq> dom d'"
proof (induction es G arbitrary: d rule: add_edges_from.induct)
  case (1 G)
  then show ?case by simp
next
  case (2 u v key d0 es G)
  from add_edge_keeps [OF "2.prems", of u v key d0]
  obtain d1 where d1: "map_of (edge (add_edge u v key d0 G)) k = Some d1" "dom d \<subseteq> dom d1"
    by blast
  from "2.IH" [OF d1(1)]
  obtain d' where "map_of (edge (add_edges_from es (add_edge u v key d0 G))) k = Some d'"
    "dom d1 \<subseteq> dom d'" by blast
  with d1(2) show ?case by auto
qed

lemma add_edges_from_new:
  "(k, d) \<in> set es \<Longrightarrow>
     \<exists>d'. map_of (edge (add_edges_from es G)) k = Some d' \<and> dom d \<subseteq> dom d'"
proof (induction es G rule: add_edges_from.induct)
  case (1 G)
  then show ?case by simp
next
  case (2 u v key d0 es G)
  show ?case
  proof (cases "(k, d) = ((u, v, key), d0)")
    case True
    from add_edge_new [of u v key d0 G]
    obtain d1 where d1: "map_of (edge (add_edge u v key d0 G)) (u, v, key) = Some d1"
      "dom d0 \<subseteq> dom d1" by blast
    from add_edges_from_keeps [OF d1(1), of es]
    obtain d' where "map_of (edge (add_edges_from es (add_edge u v key d0 G))) (u, v, key) = Some d'"
      "dom d1 \<subseteq> dom d'" by blast
    with d1(2) True show ?thesis by auto
  next
    case False
    with "2.prems" have "(k, d) \<in> set es" by auto
    from "2.IH" [OF this] show ?thesis by simp
  qed
qed

lemma add_edges_from_origin:
  "map_of (edge (add_edges_from es G)) k = Some d' \<Longrightarrow> d' a = Some val \<Longrightarrow>
     (\<exists>d. map_of (edge G) k = Some d \<and> d a = Some val) \<or> (\<exists>d. (k, d) \<in> set es \<and> d a = Some val)"
proof (induction es G rule: add_edges_from.induct)
  case (1 G)
  then show ?case by simp
next
  case (2 u v key d0 es G)
  from "2.prems"(1)
  have "map_of (edge (add_edges_from es (add_edge u v key d0 G))) k = Some d'" by simp
  from "2.IH" [OF this "2.prems"(2)]
  consider d where "map_of (edge (add_edge u v key d0 G)) k = Some d" "d a = Some val"
    | d where "(k, d) \<in> set es" "d a = Some val"
    by blast
  then show ?case
  proof cases
    case 1
    from add_edge_origin [OF 1]
    show ?thesis by auto
  next
    case 2
    then have "(k, d) \<in> set (((u, v, key), d0) # es)" by simp
    with 2(2) show ?thesis by blast
  qed
qed

lemma map_of_filter_key:
  "map_of (filter (\<lambda>e. P (fst e)) xs) k = (if P k then map_of xs k else None)"
  by (induction xs) auto

lemma map_of_edge_remove_node:
  "map_of (edge (remove_node n G)) k =
     (if fst k \<noteq> n \<and> fst (snd k) \<noteq> n then map_of (edge G) k else None)"
proof -
  have "edge (remove_node n G) = filter (\<lambda>e. fst (fst e) \<noteq> n \<and> fst (snd (fst e)) \<noteq> n) (edge G)"
    by (simp add: remove_node_def src_def tgt_def)
  then show ?thesis
    using map_of_filter_key [of "\<lambda>k. fst k \<noteq> n \<and> fst (snd k) \<noteq> n" "edge G" k] by simp
qed

lemma new_edges_members:
  assumes "distinct (map fst (edge G))"
  shows "(k', d) \<in> set (map (\<lambda>e. ((new, if old = tgt e then new else tgt e, ekey e), snd e))
                          (out_edges G old) @
                        map (\<lambda>e. ((if old = src e then new else src e, new, ekey e), snd e))
                          (in_edges G old))
         \<longleftrightarrow> (\<exists>k. map_of (edge G) k = Some d \<and> (fst k = old \<or> fst (snd k) = old) \<and>
                  k' = rename_key (rename1 old new) k)"
proof -
  have out: "(new, if old = tgt e then new else tgt e, ekey e) = rename_key (rename1 old new) (fst e)"
    if "src e = old" for e :: "(gene \<times> gene \<times> nat) \<times> attrs"
    using that by (auto simp: rename_key_def rename1_def src_def tgt_def ekey_def)
  have inn: "(if old = src e then new else src e, new, ekey e) = rename_key (rename1 old new) (fst e)"
    if "tgt e = old" for e :: "(gene \<times> gene \<times> nat) \<times> attrs"
    using that by (auto simp: rename_key_def rename1_def src_def tgt_def ekey_def)
  have mem: "map_of (edge G) k = Some d \<longleftrightarrow> (k, d) \<in> set (edge G)" for k
    using assms by (simp add: map_of_eq_Some_iff)
  show ?thesis
  proof
    assume "(k', d) \<in> set (map (\<lambda>e. ((new, if old = tgt e then new else tgt e, ekey e), snd e))
                          (out_edges G old) @
                        map (\<lambda>e. ((if old = src e then new else src e, new, ekey e), snd e))
                          (in_edges G old))"
    then consider e where "e \<in> set (edge G)" "src e = old"
        "k' = (new, if old = tgt e then new else tgt e, ekey e)" "d = snd e"
      | e where "e \<in> set (edge G)" "tgt e = old"
        "k' = (if old = src e then new else src e, new, ekey e)" "d = snd e"
      by (auto simp: out_edges_def in_edges_def)
    then show "\<exists>k. map_of (edge G) k = Some d \<and> (fst k = old \<or> fst (snd k) = old) \<and>
                  k' = rename_key (rename1 old new) k"
    proof cases
      case 1
      from 1(1,4) have "map_of (edge G) (fst e) = Some d" unfolding mem by simp
      moreover from 1(2) have "fst (fst e) = old" by (simp add: src_def)
      moreover from 1(2,3) have "k' = rename_key (rename1 old new) (fst e)" by (simp add: out)
      ultimately show ?thesis by blast
    next
      case 2
      from 2(1,4) have "map_of (edge G) (fst e) = Some d" unfolding mem by simp
      moreover from 2(2) have "fst (snd (fst e)) = old" by (simp add: tgt_def)
      moreover from 2(2,3) have "k' = rename_key (rename1 old new) (fst e)" by (simp add: inn)
      ultimately show ?thesis by blast
    qed
  next
    assume "\<exists>k. map_of (edge G) k = Some d \<and> (fst k = old \<or> fst (snd k) = old) \<and>
                  k' = rename_key (rename1 old new) k"
    then obtain k where k: "map_of (edge G) k = Some d" "fst k = old \<or> fst (snd k) = old"
      "k' = rename_key (rename1 old new) k" by blast
    from k(1) have e: "(k, d) \<in> set (edge G)" by (simp add: mem)
    from k(2) show "(k', d) \<in> set (map (\<lambda>e. ((new, if old = tgt e then new else tgt e, ekey e), snd e))
                          (out_edges G old) @
                        map (\<lambda>e. ((if old = src e then new else src e, new, ekey e), snd e))
                          (in_edges G old))"
    proof
      assume "fst k = old"
      then have s: "src (k, d) = old" by (simp add: src_def)
      with e have "(k, d) \<in> set (out_edges G old)" by (simp add: out_edges_def)
      then have "((new, if old = tgt (k, d) then new else tgt (k, d), ekey (k, d)), snd (k, d))
          \<in> set (map (\<lambda>e. ((new, if old = tgt e then new else tgt e, ekey e), snd e)) (out_edges G old))"
        unfolding set_map by (rule imageI)
      with out [OF s] k(3) show ?thesis by simp
    next
      assume "fst (snd k) = old"
      then have t: "tgt (k, d) = old" by (simp add: tgt_def)
      with e have "(k, d) \<in> set (in_edges G old)" by (simp add: in_edges_def)
      then have "((if old = src (k, d) then new else src (k, d), new, ekey (k, d)), snd (k, d))
          \<in> set (map (\<lambda>e. ((if old = src e then new else src e, new, ekey e), snd e)) (in_edges G old))"
        unfolding set_map by (rule imageI)
      with inn [OF t] k(3) show ?thesis by simp
    qed
  qed
qed

lemma relabel_step_edges:
  assumes wf: "wf_graph G" and a: "map_of (node G) old = Some a"
    and m: "m old = Some new" and ne: "new \<noteq> old"
    and step: "relabel_step m old G = Inr G'"
  shows "edges_merged (rename1 old new) G G'"
proof -
  define G1 where "G1 = add_node new a G"
  define es where
    "es = map (\<lambda>e. ((new, if old = tgt e then new else tgt e, ekey e), snd e)) (out_edges G1 old) @
          map (\<lambda>e. ((if old = src e then new else src e, new, ekey e), snd e)) (in_edges G1 old)"
  define G2 where "G2 = remove_node old G1"
  have "relabel_step m old G = Inr (add_edges_from es G2)"
    by (simp add: relabel_step_def m ne a Let_def G2_def es_def G1_def)
  with step have G': "G' = add_edges_from es G2" by simp
  have edge1: "edge G1 = edge G" by (simp add: G1_def edge_add_node)
  have dist: "distinct (map fst (edge G1))"
    using wf_graph_distinct(2) [OF wf] by (simp add: edge1)
  have es: "(k', d) \<in> set es \<longleftrightarrow>
      (\<exists>k. map_of (edge G) k = Some d \<and> (fst k = old \<or> fst (snd k) = old) \<and>
           k' = rename_key (rename1 old new) k)" for k' d
    unfolding es_def new_edges_members [OF dist] edge1 ..
  have edge2: "map_of (edge G2) k =
      (if fst k \<noteq> old \<and> fst (snd k) \<noteq> old then map_of (edge G) k else None)" for k
    by (simp add: G2_def map_of_edge_remove_node edge1)
  show ?thesis
  proof (rule edges_mergedI)
    fix k d assume k: "map_of (edge G) k = Some d"
    show "\<exists>d'. map_of (edge G') (rename_key (rename1 old new) k) = Some d' \<and> dom d \<subseteq> dom d'"
    proof (cases "fst k \<noteq> old \<and> fst (snd k) \<noteq> old")
      case True
      then have same: "rename_key (rename1 old new) k = k" by (simp add: rename_key_untouched)
      from True k have "map_of (edge G2) k = Some d" by (simp add: edge2)
      from add_edges_from_keeps [OF this, of es] show ?thesis by (simp add: same G')
    next
      case False
      then have "fst k = old \<or> fst (snd k) = old" by blast
      with k have "(rename_key (rename1 old new) k, d) \<in> set es" unfolding es by blast
      from add_edges_from_new [OF this, of G2] show ?thesis by (simp add: G')
    qed
  next
    fix k' d' key val assume "map_of (edge G') k' = Some d'" and val: "d' key = Some val"
    then have "map_of (edge (add_edges_from es G2)) k' = Some d'" by (simp add: G')
    from add_edges_from_origin [OF this val]
    consider d where "map_of (edge G2) k' = Some d" "d key = Some val"
      | d where "(k', d) \<in> set es" "d key = Some val"
      by blast
    then show "\<exists>k d. map_of (edge G) k = Some d \<and> rename_key (rename1 old new) k = k' \<and>
                     d key = Some val"
    proof cases
      case 1
      from 1(1) have un: "fst k' \<noteq> old \<and> fst (snd k') \<noteq> old" and k': "map_of (edge G) k' = Some d"
        by (simp_all add: edge2 split: if_splits)
      from un have "rename_key (rename1 old new) k' = k'" by (simp add: rename_key_untouched)
      with k' 1(2) show ?thesis by blast
    next
      case 2
      from 2(1) obtain k where "map_of (edge G) k = Some d" "k' = rename_key (rename1 old new) k"
        unfolding es by blast
      with 2(2) show ?thesis by blast
    qed
  qed
qed

lemma relabel_inplace_edges:
  assumes "wf_graph G" and "distinct order" and "targets_fixed m"
    and "\<forall>x\<in>set order. \<forall>new. m x = Some new \<and> new \<noteq> x \<longrightarrow> x \<in> set (nodes_of G)"
    and "relabel_inplace m order G = Inr G'"
  shows "edges_merged (renaming m order) G G'"
  using assms
proof (induction order arbitrary: G)
  case Nil
  have "renaming m [] = (\<lambda>x. x)" by (rule ext) (simp add: renaming_def)
  moreover from Nil.prems(5) have "G' = G" by simp
  ultimately show ?case by (simp add: edges_merged_refl)
next
  case (Cons old rest)
  from Cons.prems(2) have notin: "old \<notin> set rest" and drest: "distinct rest" by simp_all
  show ?case
  proof (cases "m old = None \<or> m old = Some old")
    case True
    then have step: "relabel_step m old G = Inr G"
      by (auto simp: relabel_step_def)
    with Cons.prems(5) have run: "relabel_inplace m rest G = Inr G'" by simp
    from Cons.prems(4)
    have "\<forall>x\<in>set rest. \<forall>new. m x = Some new \<and> new \<noteq> x \<longrightarrow> x \<in> set (nodes_of G)"
      by (meson list.set_intros(2))
    from Cons.IH [OF Cons.prems(1) drest Cons.prems(3) this run]
    show ?thesis
      unfolding renaming_Cons_skip [of m old rest, OF True notin] .
  next
    case False
    then obtain new where new: "m old = Some new" "new \<noteq> old" by auto
    from Cons.prems(4) have "\<forall>new. m old = Some new \<and> new \<noteq> old \<longrightarrow> old \<in> set (nodes_of G)"
      by (rule bspec) simp
    with new have "old \<in> set (nodes_of G)" by blast
    then have "map_of (node G) old \<noteq> None"
      by (simp add: nodes_of_def map_of_eq_None_iff)
    then obtain a where a: "map_of (node G) old = Some a"
      by blast
    from relabel_step_props [of G old a m new, OF Cons.prems(1) a new]
    obtain G1 where G1: "relabel_step m old G = Inr G1" "wf_graph G1"
      "set (nodes_of G1) = rename1 old new ` set (nodes_of G)"
      by blast
    from Cons.prems(5) G1(1) have run: "relabel_inplace m rest G1 = Inr G'" by simp
    have pre: "\<forall>x\<in>set rest. \<forall>new'. m x = Some new' \<and> new' \<noteq> x \<longrightarrow> x \<in> set (nodes_of G1)"
    proof (intro ballI allI impI)
      fix x new' assume x: "x \<in> set rest" and xn: "m x = Some new' \<and> new' \<noteq> x"
      from x have "x \<in> set (old # rest)" by simp
      with Cons.prems(4) have "\<forall>new. m x = Some new \<and> new \<noteq> x \<longrightarrow> x \<in> set (nodes_of G)"
        by (rule bspec)
      with xn have "x \<in> set (nodes_of G)" by blast
      moreover from x notin have "x \<noteq> old" by blast
      ultimately have "rename1 old new x \<in> rename1 old new ` set (nodes_of G)" "rename1 old new x = x"
        by (simp_all add: rename1_def)
      then show "x \<in> set (nodes_of G1)" unfolding G1(3) by simp
    qed
    have one: "edges_merged (rename1 old new) G G1"
      using Cons.prems(1) a new G1(1) by (rule relabel_step_edges)
    have more: "edges_merged (renaming m rest) G1 G'"
      using G1(2) drest Cons.prems(3) pre run by (rule Cons.IH)
    from one more have "edges_merged (renaming m rest \<circ> rename1 old new) G G'"
      by (rule edges_merged_trans)
    then show ?thesis
      unfolding renaming_Cons_step [of m old new rest, OF new notin Cons.prems(3)] .
  qed
qed

lemma relabel_nodes_edges:
  assumes wf: "wf_graph G" and d: "distinct order" and sub: "set (nodes_of G) \<subseteq> set order"
    and idem: "\<And>x. f (f x) = f x"
    and run: "relabel_nodes order f G = Inr G'"
  shows "edges_merged f G G'"
proof -
  define m where "m = map_of (map (\<lambda>n. (n, f n)) (nodes_of G))"
  have m: "m x = (if x \<in> set (nodes_of G) then Some (f x) else None)" for x
    by (simp add: m_def map_of_restrict_nodes)
  have tf: "targets_fixed m" unfolding m_def using idem by (rule targets_fixed_restrict)
  have pre: "\<forall>x\<in>set order. \<forall>new. m x = Some new \<and> new \<noteq> x \<longrightarrow> x \<in> set (nodes_of G)"
  proof (intro ballI allI impI)
    fix x new assume "m x = Some new \<and> new \<noteq> x"
    then have "m x \<noteq> None" by simp
    then show "x \<in> set (nodes_of G)" by (simp add: m split: if_splits)
  qed
  have ren: "renaming m order x = f x" if "x \<in> set (nodes_of G)" for x
    using that sub by (auto simp: renaming_def dict_get_def m)
  from run have "relabel_inplace m order G = Inr G'"
    using targets_fixed_no_cycle [OF tf, of "nodes_of G"]
    by (simp add: relabel_nodes_def m_def [symmetric])
  with wf d tf pre have "edges_merged (renaming m order) G G'"
    by (rule relabel_inplace_edges)
  then show ?thesis
  proof (rule edges_merged_cong)
    fix k assume "k \<in> keys_of G"
    from wf_graph_keys [OF wf this] show "rename_key (renaming m order) k = rename_key f k"
      by (simp add: rename_key_def ren)
  qed
qed

lemma apply_mapping_edges:
  assumes scan: "scan_of orth comps" and wfg: "wf_graph g"
    and d: "distinct order" and sub: "set (nodes_of g) \<subseteq> set order"
    and run: "apply_mapping order orth (canonical_mapping orth comps) g = Inr g'"
  shows "edges_merged (relabel_name (canonical_mapping orth comps)) g g'"
proof -
  let ?M = "canonical_mapping orth comps"
  let ?F = "relabel_name ?M"
  from run obtain nd where nd: "map_node_data orth ?M (node g) = Inr nd"
    and rel: "relabel_nodes order ?F (g\<lparr>node := nd\<rparr>) = Inr g'"
    by (auto simp: apply_mapping_def split: sum.splits)
  from map_node_data_Inr [OF nd]
  have nd_eq: "nd = map (\<lambda>e. (fst e, node_data_after orth ?M (fst e) (snd e))) (node g)" .
  define g1 where "g1 = g\<lparr>node := nd\<rparr>"
  have fst_nd: "map fst nd = map fst (node g)" by (simp add: nd_eq comp_def)
  have nodes1: "nodes_of g1 = nodes_of g" by (simp add: g1_def nodes_of_def fst_nd)
  have edge1: "edge g1 = edge g" by (simp add: g1_def)
  have wf1: "wf_graph g1"
    using wfg unfolding wf_graph_def nodes1 by (simp add: g1_def fst_nd endpoints_def)
  from rel have "relabel_nodes order ?F g1 = Inr g'" by (simp add: g1_def)
  with wf1 d sub [folded nodes1] relabel_name_idem [OF scan]
  have "edges_merged ?F g1 g'" by (rule relabel_nodes_edges)
  then show ?thesis unfolding edges_merged_def edge1 .
qed

subsection \<open>Nodes that meet under one identifier (C3)\<close>

lemma mapped_node_leaves:
  assumes scan: "scan_of orth comps" and wfo: "wf_graph orth"
    and a: "canonical_mapping orth comps a = Some r" and ne: "a \<noteq> r"
  shows "a \<notin> relabel_name (canonical_mapping orth comps) ` N"
proof
  assume "a \<in> relabel_name (canonical_mapping orth comps) ` N"
  then obtain x where x: "relabel_name (canonical_mapping orth comps) x = a" by auto
  show False
  proof (cases "canonical_mapping orth comps x")
    case None
    with x have "x = a" by (simp add: relabel_name_def)
    with None a show False by simp
  next
    case (Some s)
    with x have "s = a" by (simp add: relabel_name_def)
    with mapping_value_is_key(2) [OF scan wfo Some] a ne show False by simp
  qed
qed

lemma Collect_image_pred: "{y \<in> h ` K. P y} = h ` {k \<in> K. P (h k)}"
  by blast

lemma incident_renamed:
  assumes "keys_of g' = rename_key F ` keys_of g"
  shows "incident g' r = rename_key F ` {k \<in> keys_of g. F (fst k) = r \<or> F (fst (snd k)) = r}"
proof -
  have "incident g' r = {y \<in> rename_key F ` keys_of g. fst y = r \<or> fst (snd y) = r}"
    by (simp add: incident_def assms)
  also have "\<dots> = rename_key F ` {k \<in> keys_of g. fst (rename_key F k) = r \<or> fst (snd (rename_key F k)) = r}"
    by (rule Collect_image_pred)
  finally show ?thesis by (simp add: rename_key_def)
qed

lemma edge_count: "distinct (map fst (edge G)) \<Longrightarrow> length (edge G) = card (keys_of G)"
proof -
  assume "distinct (map fst (edge G))"
  then have "card (set (map fst (edge G))) = length (map fst (edge G))" by (rule distinct_card)
  then show ?thesis by (simp add: keys_of_def)
qed

lemma finite_keys_of: "finite (keys_of G)"
  by (simp add: keys_of_def)

text \<open>
  C3 (as stated, refuted). The claim says that the one node has the union of the edges
  and the merge of the attributes of the colliding nodes, and that no edge or attribute
  of either is dropped. In \<open>parallel_corpus\<close> the nodes TP53 and Tp53 are both mapped to
  Trp53; each has an edge to FOO with the key 0, one with the relation increases, one
  with the relation decreases, and each has a \<open>label\<close>, human and rat. After cells 17 and
  18 the graph has one edge from Trp53 to FOO, where it had two, and one \<open>label\<close> at
  Trp53: the relation and the label of the node that is renamed last have overwritten
  those of the node renamed first, whichever of the two orders the library takes.
\<close>

theorem colliding_edge_and_attribute_are_overwritten:
  "canonical_mapping example_orthology_data (connected_components example_orthology_data) hgnc_TP53
     = Some mgi_Trp53 \<and>
   canonical_mapping example_orthology_data (connected_components example_orthology_data) rgd_Tp53
     = Some mgi_Trp53 \<and>
   map (\<lambda>e. (fst e, snd e ''relation'')) (edge parallel_corpus)
     = [((hgnc_TP53, hgnc_FOO, 0), Some ''increases''), ((rgd_Tp53, hgnc_FOO, 0), Some ''decreases'')] \<and>
   map (\<lambda>n. (fst n, snd n ''label'')) (node parallel_corpus)
     = [(hgnc_TP53, Some ''human''), (rgd_Tp53, Some ''rat''), (hgnc_FOO, None)] \<and>
   (case apply_mapping [mgi_Trp53, hgnc_TP53, rgd_Tp53, hgnc_FOO] example_orthology_data
           (canonical_mapping example_orthology_data (connected_components example_orthology_data))
           parallel_corpus of
      Inl e \<Rightarrow> None
    | Inr g' \<Rightarrow> Some (map (\<lambda>e. (fst e, snd e ''relation'')) (edge g'),
                       map (\<lambda>n. (fst n, snd n ''label'')) (node g')))
     = Some ([((mgi_Trp53, hgnc_FOO, 0), Some ''decreases'')],
             [(hgnc_FOO, None), (mgi_Trp53, Some ''rat'')]) \<and>
   (case apply_mapping [mgi_Trp53, rgd_Tp53, hgnc_TP53, hgnc_FOO] example_orthology_data
           (canonical_mapping example_orthology_data (connected_components example_orthology_data))
           parallel_corpus of
      Inl e \<Rightarrow> None
    | Inr g' \<Rightarrow> Some (map (\<lambda>e. (fst e, snd e ''relation'')) (edge g'),
                       map (\<lambda>n. (fst n, snd n ''label'')) (node g')))
     = Some ([((mgi_Trp53, hgnc_FOO, 0), Some ''increases'')],
             [(hgnc_FOO, None), (mgi_Trp53, Some ''human'')])"
  by code_simp

text \<open>
  C3 (amended). When two distinct nodes \<open>a\<close> and \<open>b\<close> of the target graph are mapped to
  the same canonical identifier \<open>r\<close>, the relabeled graph has \<open>r\<close> exactly once among its
  nodes and no longer has \<open>a\<close> or \<open>b\<close> (unless one of them is \<open>r\<close> itself).

  Edges: an edge is a triple (source, target, key) with its data. The triples at \<open>r\<close> are
  the renamed triples of all nodes that are renamed to \<open>r\<close>, those of \<open>a\<close> and of \<open>b\<close>
  among them. Edges that get the same renamed triple become one edge, so the graph
  never gains an edge and keeps their number exactly when no two edges get the same
  renamed triple. Every edge is found under its renamed triple with at least its own
  data keys; an edge that alone gets its renamed triple keeps its data unchanged; every
  data entry of an edge of the result is an entry of an edge that was renamed to it.

  Attributes: the dictionary of \<open>r\<close> has every attribute key that \<open>a\<close> or \<open>b\<close> has, before
  and after the attribute update of cell 17; each of its entries is an entry that a
  node renamed to \<open>r\<close> has after that update; and a value on which all the nodes
  renamed to \<open>r\<close> that have the key agree is kept. Where two of them have the same key
  with different values, one value stays and the other is lost.

  Assumed are the invariant of the two graphs, a \<open>type\<close> attribute at every node of the
  target graph, and that the library takes every node of the target graph once when it
  renames.
\<close>

theorem colliding_nodes_become_one:
  assumes "scan_of orth comps" and "wf_graph orth" and "wf_graph g"
    and "distinct order" and "set (nodes_of g) \<subseteq> set order"
    and "\<forall>e\<in>set (node g). snd e ''type'' \<noteq> None"
    and "a \<in> set (nodes_of g)" and "b \<in> set (nodes_of g)" and "a \<noteq> b"
    and "canonical_mapping orth comps a = Some r" and "canonical_mapping orth comps b = Some r"
  shows "\<exists>g'. apply_mapping order orth (canonical_mapping orth comps) g = Inr g' \<and>
           distinct (nodes_of g') \<and> r \<in> set (nodes_of g') \<and>
           (a \<noteq> r \<longrightarrow> a \<notin> set (nodes_of g')) \<and> (b \<noteq> r \<longrightarrow> b \<notin> set (nodes_of g')) \<and>
           incident g' r =
             rename_key (relabel_name (canonical_mapping orth comps)) `
               {k \<in> keys_of g. relabel_name (canonical_mapping orth comps) (fst k) = r \<or>
                                relabel_name (canonical_mapping orth comps) (fst (snd k)) = r} \<and>
           rename_key (relabel_name (canonical_mapping orth comps)) ` (incident g a \<union> incident g b)
             \<subseteq> incident g' r \<and>
           length (edge g') \<le> length (edge g) \<and>
           (length (edge g') = length (edge g) \<longleftrightarrow>
              inj_on (rename_key (relabel_name (canonical_mapping orth comps))) (keys_of g)) \<and>
           (\<forall>k d. map_of (edge g) k = Some d \<longrightarrow>
              (\<exists>d'. map_of (edge g') (rename_key (relabel_name (canonical_mapping orth comps)) k)
                      = Some d' \<and>
                    dom d \<subseteq> dom d' \<and>
                    ((\<forall>k2\<in>keys_of g.
                        rename_key (relabel_name (canonical_mapping orth comps)) k2 =
                        rename_key (relabel_name (canonical_mapping orth comps)) k \<longrightarrow> k2 = k)
                     \<longrightarrow> d' = d))) \<and>
           (\<forall>k' d' key val. map_of (edge g') k' = Some d' \<and> d' key = Some val \<longrightarrow>
              (\<exists>k d. map_of (edge g) k = Some d \<and>
                     rename_key (relabel_name (canonical_mapping orth comps)) k = k' \<and>
                     d key = Some val)) \<and>
           (\<exists>ar. map_of (node g') r = Some ar \<and>
              (\<forall>n\<in>{a, b}. \<forall>d. map_of (node g) n = Some d \<longrightarrow>
                 dom d \<subseteq> dom ar \<and>
                 dom (node_data_after orth (canonical_mapping orth comps) n d) \<subseteq> dom ar) \<and>
              (\<forall>key val. ar key = Some val \<longrightarrow>
                 (\<exists>n d. map_of (node g) n = Some d \<and>
                        relabel_name (canonical_mapping orth comps) n = r \<and>
                        node_data_after orth (canonical_mapping orth comps) n d key = Some val)) \<and>
              (\<forall>key val.
                 (\<exists>n d. map_of (node g) n = Some d \<and>
                        relabel_name (canonical_mapping orth comps) n = r \<and>
                        node_data_after orth (canonical_mapping orth comps) n d key = Some val) \<and>
                 (\<forall>n d v. map_of (node g) n = Some d \<and>
                        relabel_name (canonical_mapping orth comps) n = r \<and>
                        node_data_after orth (canonical_mapping orth comps) n d key = Some v
                        \<longrightarrow> v = val)
                 \<longrightarrow> ar key = Some val))"
proof -
  let ?M = "canonical_mapping orth comps"
  let ?F = "relabel_name ?M"
  note std = assms(1-6)
  from assms(10,11) have Fa: "?F a = r" and Fb: "?F b = r" by (simp_all add: relabel_name_def)
  show ?thesis
  proof (rule apply_mapping_result [OF std])
    fix g'
    assume res: "apply_mapping order orth ?M g = Inr g'"
      and wf': "wf_graph g'"
      and nodes: "set (nodes_of g') = ?F ` set (nodes_of g)"
      and keys: "keys_of g' = rename_key ?F ` keys_of g"
      and q1: "\<And>n a. map_of (node g) n = Some a \<Longrightarrow>
         \<exists>a'. map_of (node g') (?F n) = Some a' \<and> dom (node_data_after orth ?M n a) \<subseteq> dom a'"
      and q2: "\<And>r a' key val. map_of (node g') r = Some a' \<Longrightarrow> a' key = Some val \<Longrightarrow>
         \<exists>n a. map_of (node g) n = Some a \<and> ?F n = r \<and> node_data_after orth ?M n a key = Some val"
    have em: "edges_merged ?F g g'"
      using assms(1,3,4,5) res by (rule apply_mapping_edges)
    have c1: "distinct (nodes_of g')"
      using wf_graph_distinct(1) [OF wf'] by (simp add: nodes_of_def)
    have c2: "r \<in> set (nodes_of g')"
      unfolding nodes using assms(7) Fa by (metis image_eqI)
    have c3: "a \<noteq> r \<longrightarrow> a \<notin> set (nodes_of g')"
      unfolding nodes using mapped_node_leaves [OF assms(1,2,10)] by blast
    have c4: "b \<noteq> r \<longrightarrow> b \<notin> set (nodes_of g')"
      unfolding nodes using mapped_node_leaves [OF assms(1,2,11)] by blast
    have c5: "incident g' r = rename_key ?F ` {k \<in> keys_of g. ?F (fst k) = r \<or> ?F (fst (snd k)) = r}"
      using keys by (rule incident_renamed)
    have "incident g a \<union> incident g b \<subseteq> {k \<in> keys_of g. ?F (fst k) = r \<or> ?F (fst (snd k)) = r}"
      using Fa Fb by (auto simp: incident_def)
    then have c6: "rename_key ?F ` (incident g a \<union> incident g b) \<subseteq> incident g' r"
      unfolding c5 by (rule image_mono)
    have len: "length (edge g) = card (keys_of g)"
      using wf_graph_distinct(2) [OF assms(3)] by (rule edge_count)
    have len': "length (edge g') = card (rename_key ?F ` keys_of g)"
      using edge_count [OF wf_graph_distinct(2) [OF wf']] by (simp add: keys)
    have e1: "length (edge g') \<le> length (edge g)"
      unfolding len len' using finite_keys_of by (rule card_image_le)
    have e2: "length (edge g') = length (edge g) \<longleftrightarrow> inj_on (rename_key ?F) (keys_of g)"
      unfolding len len' using inj_on_iff_eq_card [OF finite_keys_of, of "rename_key ?F" g] by simp
    have e3: "\<forall>k d. map_of (edge g) k = Some d \<longrightarrow>
        (\<exists>d'. map_of (edge g') (rename_key ?F k) = Some d' \<and> dom d \<subseteq> dom d' \<and>
              ((\<forall>k2\<in>keys_of g. rename_key ?F k2 = rename_key ?F k \<longrightarrow> k2 = k) \<longrightarrow> d' = d))"
    proof (intro allI impI)
      fix k d assume k: "map_of (edge g) k = Some d"
      from edges_merged_keeps [OF em k]
      obtain d' where d': "map_of (edge g') (rename_key ?F k) = Some d'" "dom d \<subseteq> dom d'" by blast
      have "d' = d" if only: "\<forall>k2\<in>keys_of g. rename_key ?F k2 = rename_key ?F k \<longrightarrow> k2 = k"
        using d'(2)
      proof (rule attrs_eqI)
        fix key val assume "d' key = Some val"
        from edges_merged_origin [OF em d'(1) this]
        obtain k2 d2 where k2: "map_of (edge g) k2 = Some d2" "rename_key ?F k2 = rename_key ?F k"
          "d2 key = Some val" by blast
        from only map_of_keys_of [OF k2(1)] k2(2) have "k2 = k" by blast
        with k2(1,3) k show "d key = Some val" by simp
      qed
      with d' show "\<exists>d'. map_of (edge g') (rename_key ?F k) = Some d' \<and> dom d \<subseteq> dom d' \<and>
              ((\<forall>k2\<in>keys_of g. rename_key ?F k2 = rename_key ?F k \<longrightarrow> k2 = k) \<longrightarrow> d' = d)"
        by blast
    qed
    have e4: "\<forall>k' d' key val. map_of (edge g') k' = Some d' \<and> d' key = Some val \<longrightarrow>
        (\<exists>k d. map_of (edge g) k = Some d \<and> rename_key ?F k = k' \<and> d key = Some val)"
      using em unfolding edges_merged_def by (rule conjunct2)
    from assms(7) have "map_of (node g) a \<noteq> None" by (simp add: nodes_of_def map_of_eq_None_iff)
    then obtain da where da: "map_of (node g) a = Some da" by blast
    from q1 [OF da] Fa obtain ar where ar: "map_of (node g') r = Some ar"
      "dom (node_data_after orth ?M a da) \<subseteq> dom ar" by auto
    have doms: "\<forall>n\<in>{a, b}. \<forall>d. map_of (node g) n = Some d \<longrightarrow>
        dom d \<subseteq> dom ar \<and> dom (node_data_after orth ?M n d) \<subseteq> dom ar"
    proof (intro ballI allI impI)
      fix n d assume n: "n \<in> {a, b}" and d: "map_of (node g) n = Some d"
      from n Fa Fb have "?F n = r" by auto
      with q1 [OF d] ar(1) have "dom (node_data_after orth ?M n d) \<subseteq> dom ar" by auto
      with dom_node_data_after [of d orth ?M n]
      show "dom d \<subseteq> dom ar \<and> dom (node_data_after orth ?M n d) \<subseteq> dom ar" by blast
    qed
    have orig: "\<forall>key val. ar key = Some val \<longrightarrow>
        (\<exists>n d. map_of (node g) n = Some d \<and> ?F n = r \<and> node_data_after orth ?M n d key = Some val)"
      using q2 [OF ar(1)] by blast
    have agree: "\<forall>key val.
        (\<exists>n d. map_of (node g) n = Some d \<and> ?F n = r \<and> node_data_after orth ?M n d key = Some val) \<and>
        (\<forall>n d v. map_of (node g) n = Some d \<and> ?F n = r \<and> node_data_after orth ?M n d key = Some v
           \<longrightarrow> v = val)
        \<longrightarrow> ar key = Some val"
    proof (intro allI impI, elim conjE exE)
      fix key val n d
      assume n: "map_of (node g) n = Some d" and Fn: "?F n = r"
        and v: "node_data_after orth ?M n d key = Some val"
        and all: "\<forall>n d v. map_of (node g) n = Some d \<and> ?F n = r \<and>
                   node_data_after orth ?M n d key = Some v \<longrightarrow> v = val"
      from q1 [OF n] Fn ar(1) have "dom (node_data_after orth ?M n d) \<subseteq> dom ar" by auto
      with v have "key \<in> dom ar" by blast
      then obtain v' where v': "ar key = Some v'" by blast
      from q2 [OF ar(1) v']
      obtain n' d' where "map_of (node g) n' = Some d'" "?F n' = r"
        "node_data_after orth ?M n' d' key = Some v'" by blast
      with all have "v' = val" by blast
      with v' show "ar key = Some val" by simp
    qed
    from ar(1) doms orig agree have c7: "\<exists>ar. map_of (node g') r = Some ar \<and>
        (\<forall>n\<in>{a, b}. \<forall>d. map_of (node g) n = Some d \<longrightarrow>
           dom d \<subseteq> dom ar \<and> dom (node_data_after orth ?M n d) \<subseteq> dom ar) \<and>
        (\<forall>key val. ar key = Some val \<longrightarrow>
          (\<exists>n d. map_of (node g) n = Some d \<and> ?F n = r \<and> node_data_after orth ?M n d key = Some val)) \<and>
        (\<forall>key val.
          (\<exists>n d. map_of (node g) n = Some d \<and> ?F n = r \<and> node_data_after orth ?M n d key = Some val) \<and>
          (\<forall>n d v. map_of (node g) n = Some d \<and> ?F n = r \<and> node_data_after orth ?M n d key = Some v
             \<longrightarrow> v = val)
          \<longrightarrow> ar key = Some val)"
      by (intro exI [of _ ar] conjI)
    from res c1 c2 c3 c4 c5 c6 e1 e2 e3 e4 c7 show ?thesis
      by (intro exI [of _ g'] conjI)
  qed
qed

subsection \<open>Which nodes are renamed (C2)\<close>

lemma unique_preimage_attrs:
  assumes q1: "\<And>n a. map_of (node g) n = Some a \<Longrightarrow>
         \<exists>a'. map_of (node g') (F n) = Some a' \<and> dom (h n a) \<subseteq> dom a'"
    and q2: "\<And>r a' key val. map_of (node g') r = Some a' \<Longrightarrow> a' key = Some val \<Longrightarrow>
         \<exists>n a. map_of (node g) n = Some a \<and> F n = r \<and> h n a key = Some val"
    and only: "\<forall>x\<in>set (nodes_of g). F x = F n \<longrightarrow> x = n"
    and d: "map_of (node g) n = Some d"
  shows "map_of (node g') (F n) = Some (h n d)"
proof -
  from q1 [OF d] obtain a' where a': "map_of (node g') (F n) = Some a'" "dom (h n d) \<subseteq> dom a'"
    by blast
  have "h n d key = Some val" if "a' key = Some val" for key val
  proof -
    from q2 [OF a'(1) that] obtain x ax where x: "map_of (node g) x = Some ax" "F x = F n"
      "h x ax key = Some val" by blast
    from x(1) have "x \<in> set (nodes_of g)"
      by (metis map_of_eq_None_iff nodes_of_def option.distinct(1) set_map)
    with only x(2) have "x = n" by blast
    with x d show ?thesis by simp
  qed
  with a'(2) have "a' = h n d" by (rule attrs_eqI)
  with a'(1) show ?thesis by simp
qed

text \<open>
  C2 (as stated, refuted). The claim renames a node only when its \<open>type\<close> attribute is
  Gene, RNA or Protein. The function that cell 18 hands to \<open>relabel_nodes\<close> tests
  \<open>n in mapping\<close> and nothing else. In an orthology graph that relates the complex CX
  (HGNC) to the complex Cx (MGI), the target node CX with \<open>type\<close> Complex is a key of the
  mapping and is renamed to Cx.
\<close>

theorem node_of_other_type_is_renamed:
  "the (map_of (node complex_corpus) hgnc_CX) ''type'' = Some ''Complex'' \<and>
   (case apply_mapping [hgnc_CX] complex_orthology
           (canonical_mapping complex_orthology (connected_components complex_orthology))
           complex_corpus of
      Inl e \<Rightarrow> None
    | Inr g' \<Rightarrow> Some (nodes_of g')) = Some [mgi_Cx]"
  by code_simp

text \<open>
  C2 (amended). A node \<open>n\<close> of the target graph is renamed to \<open>mapping[n]\<close> if and only if
  \<open>n\<close> is a key of the canonical mapping, whatever its \<open>type\<close> attribute, and a node that
  is not a key keeps its name. The \<open>type\<close> attribute decides only whether cell 17 merges
  the orthology node's attributes into the node's own: where no other node is renamed
  to the same identifier, a key of type Gene, RNA or Protein ends with its attributes
  updated by those of the orthology node, and a key of another type ends with its
  attributes as they were. Assumed are the invariant of the two graphs, a \<open>type\<close>
  attribute at every node of the target graph, and that the library takes every node of
  the target graph once when it renames.
\<close>

theorem renamed_iff_key:
  assumes "scan_of orth comps" and "wf_graph orth" and "wf_graph g"
    and "distinct order" and "set (nodes_of g) \<subseteq> set order"
    and "\<forall>e\<in>set (node g). snd e ''type'' \<noteq> None"
  shows "\<exists>g'. apply_mapping order orth (canonical_mapping orth comps) g = Inr g' \<and>
     (\<forall>n\<in>set (nodes_of g).
        (canonical_mapping orth comps n = None \<longrightarrow> n \<in> set (nodes_of g')) \<and>
        (\<forall>r. canonical_mapping orth comps n = Some r \<longrightarrow>
           r \<in> set (nodes_of g') \<and> (r \<noteq> n \<longrightarrow> n \<notin> set (nodes_of g'))) \<and>
        ((\<forall>x\<in>set (nodes_of g).
            relabel_name (canonical_mapping orth comps) x = relabel_name (canonical_mapping orth comps) n
              \<longrightarrow> x = n) \<longrightarrow>
         (\<forall>d t r. map_of (node g) n = Some d \<and> d ''type'' = Some t \<and>
                  canonical_mapping orth comps n = Some r \<longrightarrow>
            (t \<in> set [''Gene'', ''RNA'', ''Protein''] \<longrightarrow>
               (\<exists>oa. map_of (node orth) r = Some oa \<and> map_of (node g') r = Some (d ++ oa))) \<and>
            (t \<notin> set [''Gene'', ''RNA'', ''Protein''] \<longrightarrow> map_of (node g') r = Some d))))"
proof -
  let ?M = "canonical_mapping orth comps"
  let ?F = "relabel_name ?M"
  show ?thesis
  proof (rule apply_mapping_result [OF assms])
    fix g'
    assume res: "apply_mapping order orth ?M g = Inr g'"
      and nodes: "set (nodes_of g') = ?F ` set (nodes_of g)"
      and q1: "\<And>n a. map_of (node g) n = Some a \<Longrightarrow>
         \<exists>a'. map_of (node g') (?F n) = Some a' \<and> dom (node_data_after orth ?M n a) \<subseteq> dom a'"
      and q2: "\<And>r a' key val. map_of (node g') r = Some a' \<Longrightarrow> a' key = Some val \<Longrightarrow>
         \<exists>n a. map_of (node g) n = Some a \<and> ?F n = r \<and> node_data_after orth ?M n a key = Some val"
    have part: "(?M n = None \<longrightarrow> n \<in> set (nodes_of g')) \<and>
        (\<forall>r. ?M n = Some r \<longrightarrow> r \<in> set (nodes_of g') \<and> (r \<noteq> n \<longrightarrow> n \<notin> set (nodes_of g'))) \<and>
        ((\<forall>x\<in>set (nodes_of g). ?F x = ?F n \<longrightarrow> x = n) \<longrightarrow>
         (\<forall>d t r. map_of (node g) n = Some d \<and> d ''type'' = Some t \<and> ?M n = Some r \<longrightarrow>
            (t \<in> set [''Gene'', ''RNA'', ''Protein''] \<longrightarrow>
               (\<exists>oa. map_of (node orth) r = Some oa \<and> map_of (node g') r = Some (d ++ oa))) \<and>
            (t \<notin> set [''Gene'', ''RNA'', ''Protein''] \<longrightarrow> map_of (node g') r = Some d)))"
      if n: "n \<in> set (nodes_of g)" for n
    proof (intro conjI impI allI)
      assume "?M n = None"
      then have "?F n = n" by (simp add: relabel_name_def)
      with n show "n \<in> set (nodes_of g')" unfolding nodes by (metis image_eqI)
    next
      fix r assume r: "?M n = Some r"
      then have "?F n = r" by (simp add: relabel_name_def)
      with n show "r \<in> set (nodes_of g')" unfolding nodes by (metis image_eqI)
    next
      fix r assume r: "?M n = Some r" and "r \<noteq> n"
      then have "n \<noteq> r" by simp
      from mapped_node_leaves [OF assms(1,2) r this] show "n \<notin> set (nodes_of g')"
        unfolding nodes .
    next
      fix d t r
      assume only: "\<forall>x\<in>set (nodes_of g). ?F x = ?F n \<longrightarrow> x = n"
        and a: "map_of (node g) n = Some d \<and> d ''type'' = Some t \<and> ?M n = Some r"
        and t: "t \<in> set [''Gene'', ''RNA'', ''Protein'']"
      from a have d: "map_of (node g) n = Some d" and ty: "d ''type'' = Some t" and r: "?M n = Some r"
        by simp_all
      from r have Fn: "?F n = r" by (simp add: relabel_name_def)
      from mapping_value_is_key(1) [OF assms(1,2) r]
      have "map_of (node orth) r \<noteq> None" by (simp add: nodes_of_def map_of_eq_None_iff)
      then obtain oa where oa: "map_of (node orth) r = Some oa" by blast
      have "map_of (node g') (?F n) = Some (node_data_after orth ?M n d)"
        using q1 q2 only d by (rule unique_preimage_attrs)
      moreover have "node_data_after orth ?M n d = d ++ oa"
        using ty r t oa by (simp add: node_data_after_def)
      ultimately have "map_of (node g') r = Some (d ++ oa)" by (simp add: Fn)
      with oa show "\<exists>oa. map_of (node orth) r = Some oa \<and> map_of (node g') r = Some (d ++ oa)"
        by blast
    next
      fix d t r
      assume only: "\<forall>x\<in>set (nodes_of g). ?F x = ?F n \<longrightarrow> x = n"
        and a: "map_of (node g) n = Some d \<and> d ''type'' = Some t \<and> ?M n = Some r"
        and t: "t \<notin> set [''Gene'', ''RNA'', ''Protein'']"
      from a have d: "map_of (node g) n = Some d" and ty: "d ''type'' = Some t" and r: "?M n = Some r"
        by simp_all
      from r have Fn: "?F n = r" by (simp add: relabel_name_def)
      have "map_of (node g') (?F n) = Some (node_data_after orth ?M n d)"
        using q1 q2 only d by (rule unique_preimage_attrs)
      moreover have "node_data_after orth ?M n d = d"
        using ty t by (simp add: node_data_after_def)
      ultimately show "map_of (node g') r = Some d" by (simp add: Fn)
    qed
    then have "\<forall>n\<in>set (nodes_of g). (?M n = None \<longrightarrow> n \<in> set (nodes_of g')) \<and>
        (\<forall>r. ?M n = Some r \<longrightarrow> r \<in> set (nodes_of g') \<and> (r \<noteq> n \<longrightarrow> n \<notin> set (nodes_of g'))) \<and>
        ((\<forall>x\<in>set (nodes_of g). ?F x = ?F n \<longrightarrow> x = n) \<longrightarrow>
         (\<forall>d t r. map_of (node g) n = Some d \<and> d ''type'' = Some t \<and> ?M n = Some r \<longrightarrow>
            (t \<in> set [''Gene'', ''RNA'', ''Protein''] \<longrightarrow>
               (\<exists>oa. map_of (node orth) r = Some oa \<and> map_of (node g') r = Some (d ++ oa))) \<and>
            (t \<notin> set [''Gene'', ''RNA'', ''Protein''] \<longrightarrow> map_of (node g') r = Some d)))"
      by (rule ballI)
    with res show ?thesis by (intro exI [of _ g'] conjI)
  qed
qed

subsection \<open>The properties of cells 17 and 18 on the example graphs\<close>

lemma wf_example_orthology_data: "wf_graph example_orthology_data"
  by code_simp

lemma wf_example_corpus: "wf_graph example_corpus"
  by code_simp

lemma wf_colliding_corpus: "wf_graph colliding_corpus"
  by code_simp

lemma example_data_mapping:
  "canonical_mapping example_orthology_data (connected_components example_orthology_data) hgnc_TP53
     = Some mgi_Trp53"
  "canonical_mapping example_orthology_data (connected_components example_orthology_data) rgd_Tp53
     = Some mgi_Trp53"
  "canonical_mapping example_orthology_data (connected_components example_orthology_data) hgnc_FOO
     = None"
  by code_simp+

theorem unmapped_nodes_untouched_witness:
  "\<exists>g'. apply_mapping [mgi_Trp53, hgnc_TP53, rgd_Tp53, hgnc_FOO] example_orthology_data
           (canonical_mapping example_orthology_data (connected_components example_orthology_data))
           colliding_corpus = Inr g' \<and>
        hgnc_FOO \<in> set (nodes_of g') \<and>
        map_of (node g') hgnc_FOO = Some [''type'' \<mapsto> ''Gene'']"
proof -
  let ?order = "[mgi_Trp53, hgnc_TP53, rgd_Tp53, hgnc_FOO]"
  let ?M = "canonical_mapping example_orthology_data (connected_components example_orthology_data)"
  have d: "distinct ?order"
    by (simp add: mgi_Trp53_def hgnc_TP53_def rgd_Tp53_def hgnc_FOO_def)
  have sub: "set (nodes_of colliding_corpus) \<subseteq> set ?order"
    by (simp add: colliding_corpus_def nodes_of_def)
  have typed: "\<forall>e\<in>set (node colliding_corpus). snd e ''type'' \<noteq> None"
    by (simp add: colliding_corpus_def)
  from unmapped_nodes_untouched [OF scan_of_self wf_example_orthology_data wf_colliding_corpus
      d sub typed]
  obtain g' where g': "apply_mapping ?order example_orthology_data ?M colliding_corpus = Inr g'"
    and un: "\<forall>n\<in>set (nodes_of colliding_corpus). ?M n = None \<longrightarrow>
               n \<in> set (nodes_of g') \<and> map_of (node g') n = map_of (node colliding_corpus) n"
    by blast
  have "hgnc_FOO \<in> set (nodes_of colliding_corpus)"
    by (simp add: colliding_corpus_def nodes_of_def)
  with un example_data_mapping(3)
  have "hgnc_FOO \<in> set (nodes_of g')"
    and "map_of (node g') hgnc_FOO = map_of (node colliding_corpus) hgnc_FOO"
    by blast+
  moreover have "map_of (node colliding_corpus) hgnc_FOO = Some [''type'' \<mapsto> ''Gene'']"
    by (simp add: colliding_corpus_def mgi_Trp53_def hgnc_TP53_def rgd_Tp53_def hgnc_FOO_def)
  ultimately show ?thesis using g' by (intro exI [of _ g'] conjI) simp_all
qed

theorem colliding_nodes_become_one_witness:
  "\<exists>g'. apply_mapping [mgi_Trp53, hgnc_TP53, rgd_Tp53, hgnc_FOO] example_orthology_data
           (canonical_mapping example_orthology_data (connected_components example_orthology_data))
           colliding_corpus = Inr g' \<and>
        distinct (nodes_of g') \<and> mgi_Trp53 \<in> set (nodes_of g') \<and>
        hgnc_TP53 \<notin> set (nodes_of g') \<and> rgd_Tp53 \<notin> set (nodes_of g') \<and>
        (mgi_Trp53, hgnc_FOO, 0) \<in> incident g' mgi_Trp53 \<and>
        (hgnc_FOO, mgi_Trp53, 0) \<in> incident g' mgi_Trp53 \<and>
        length (edge g') = 2 \<and>
        map_of (edge g') (mgi_Trp53, hgnc_FOO, 0) = Some [''relation'' \<mapsto> ''increases'']"
proof -
  let ?order = "[mgi_Trp53, hgnc_TP53, rgd_Tp53, hgnc_FOO]"
  let ?M = "canonical_mapping example_orthology_data (connected_components example_orthology_data)"
  let ?F = "relabel_name ?M"
  have d: "distinct ?order"
    by (simp add: mgi_Trp53_def hgnc_TP53_def rgd_Tp53_def hgnc_FOO_def)
  have sub: "set (nodes_of colliding_corpus) \<subseteq> set ?order"
    by (simp add: colliding_corpus_def nodes_of_def)
  have typed: "\<forall>e\<in>set (node colliding_corpus). snd e ''type'' \<noteq> None"
    by (simp add: colliding_corpus_def)
  have a: "hgnc_TP53 \<in> set (nodes_of colliding_corpus)"
    and b: "rgd_Tp53 \<in> set (nodes_of colliding_corpus)"
    by (simp_all add: colliding_corpus_def nodes_of_def)
  have ne: "hgnc_TP53 \<noteq> rgd_Tp53" "hgnc_TP53 \<noteq> mgi_Trp53" "rgd_Tp53 \<noteq> mgi_Trp53"
    "mgi_Trp53 \<noteq> hgnc_FOO" "hgnc_TP53 \<noteq> hgnc_FOO"
    by (simp_all add: mgi_Trp53_def hgnc_TP53_def rgd_Tp53_def hgnc_FOO_def)
  from colliding_nodes_become_one [OF scan_of_self wf_example_orthology_data wf_colliding_corpus
      d sub typed a b ne(1) example_data_mapping(1,2)]
  obtain g' where g': "apply_mapping ?order example_orthology_data ?M colliding_corpus = Inr g'"
    and c: "distinct (nodes_of g')" "mgi_Trp53 \<in> set (nodes_of g')"
      "hgnc_TP53 \<noteq> mgi_Trp53 \<longrightarrow> hgnc_TP53 \<notin> set (nodes_of g')"
      "rgd_Tp53 \<noteq> mgi_Trp53 \<longrightarrow> rgd_Tp53 \<notin> set (nodes_of g')"
    and inc: "rename_key ?F ` (incident colliding_corpus hgnc_TP53 \<union> incident colliding_corpus rgd_Tp53)
               \<subseteq> incident g' mgi_Trp53"
    and cnt: "length (edge g') = length (edge colliding_corpus) \<longleftrightarrow>
               inj_on (rename_key ?F) (keys_of colliding_corpus)"
    and dat: "\<forall>k d. map_of (edge colliding_corpus) k = Some d \<longrightarrow>
              (\<exists>d'. map_of (edge g') (rename_key ?F k) = Some d' \<and> dom d \<subseteq> dom d' \<and>
                    ((\<forall>k2\<in>keys_of colliding_corpus. rename_key ?F k2 = rename_key ?F k \<longrightarrow> k2 = k)
                     \<longrightarrow> d' = d))"
    by (elim exE conjE) (rule that; assumption)
  have F: "?F hgnc_TP53 = mgi_Trp53" "?F rgd_Tp53 = mgi_Trp53" "?F hgnc_FOO = hgnc_FOO"
    by (simp_all add: relabel_name_def example_data_mapping)
  have k1: "(hgnc_TP53, hgnc_FOO, 0) \<in> incident colliding_corpus hgnc_TP53"
    by (simp add: incident_def keys_of_def colliding_corpus_def)
  have k2: "(hgnc_FOO, rgd_Tp53, 0) \<in> incident colliding_corpus rgd_Tp53"
    by (simp add: incident_def keys_of_def colliding_corpus_def)
  from k1 have "rename_key ?F (hgnc_TP53, hgnc_FOO, 0) \<in> incident g' mgi_Trp53"
    using inc by blast
  then have e1: "(mgi_Trp53, hgnc_FOO, 0) \<in> incident g' mgi_Trp53"
    by (simp add: rename_key_def F)
  from k2 have "rename_key ?F (hgnc_FOO, rgd_Tp53, 0) \<in> incident g' mgi_Trp53"
    using inc by blast
  then have e2: "(hgnc_FOO, mgi_Trp53, 0) \<in> incident g' mgi_Trp53"
    by (simp add: rename_key_def F)
  have keys: "keys_of colliding_corpus = {(hgnc_TP53, hgnc_FOO, 0), (hgnc_FOO, rgd_Tp53, 0)}"
    by (simp add: keys_of_def colliding_corpus_def)
  have rk: "rename_key ?F (hgnc_TP53, hgnc_FOO, 0) = (mgi_Trp53, hgnc_FOO, 0)"
    "rename_key ?F (hgnc_FOO, rgd_Tp53, 0) = (hgnc_FOO, mgi_Trp53, 0)"
    by (simp_all add: rename_key_def F)
  have inj: "inj_on (rename_key ?F) (keys_of colliding_corpus)"
    unfolding keys inj_on_def using ne(4) by (auto simp: rk)
  with cnt have e3: "length (edge g') = 2" by (simp add: colliding_corpus_def)
  have m1: "map_of (edge colliding_corpus) (hgnc_TP53, hgnc_FOO, 0) = Some [''relation'' \<mapsto> ''increases'']"
    by (simp add: colliding_corpus_def)
  have only: "\<forall>k2\<in>keys_of colliding_corpus.
      rename_key ?F k2 = rename_key ?F (hgnc_TP53, hgnc_FOO, 0) \<longrightarrow> k2 = (hgnc_TP53, hgnc_FOO, 0)"
    unfolding keys using ne(4) by (simp add: rk)
  from dat [rule_format, OF m1] only
  have e4: "map_of (edge g') (mgi_Trp53, hgnc_FOO, 0) = Some [''relation'' \<mapsto> ''increases'']"
    unfolding rk by blast
  from g' c ne e1 e2 e3 e4 show ?thesis by (intro exI [of _ g'] conjI) simp_all
qed

theorem renamed_iff_key_witness:
  "\<exists>g'. apply_mapping [mgi_Trp53, hgnc_TP53, hgnc_FOO] example_orthology_data
           (canonical_mapping example_orthology_data (connected_components example_orthology_data))
           example_corpus = Inr g' \<and>
        mgi_Trp53 \<in> set (nodes_of g') \<and> hgnc_TP53 \<notin> set (nodes_of g') \<and>
        hgnc_FOO \<in> set (nodes_of g') \<and>
        map_of (node g') mgi_Trp53
          = Some ([''type'' \<mapsto> ''Gene''] ++ [''type'' \<mapsto> ''Gene'', ''namespace'' \<mapsto> ''MGI''])"
proof -
  let ?order = "[mgi_Trp53, hgnc_TP53, hgnc_FOO]"
  let ?M = "canonical_mapping example_orthology_data (connected_components example_orthology_data)"
  let ?F = "relabel_name ?M"
  let ?P = "\<lambda>g' n. (?M n = None \<longrightarrow> n \<in> set (nodes_of g')) \<and>
        (\<forall>r. ?M n = Some r \<longrightarrow> r \<in> set (nodes_of g') \<and> (r \<noteq> n \<longrightarrow> n \<notin> set (nodes_of g'))) \<and>
        ((\<forall>x\<in>set (nodes_of example_corpus). ?F x = ?F n \<longrightarrow> x = n) \<longrightarrow>
         (\<forall>d t r. map_of (node example_corpus) n = Some d \<and> d ''type'' = Some t \<and> ?M n = Some r \<longrightarrow>
            (t \<in> set [''Gene'', ''RNA'', ''Protein''] \<longrightarrow>
               (\<exists>oa. map_of (node example_orthology_data) r = Some oa \<and>
                     map_of (node g') r = Some (d ++ oa))) \<and>
            (t \<notin> set [''Gene'', ''RNA'', ''Protein''] \<longrightarrow> map_of (node g') r = Some d)))"
  have d: "distinct ?order"
    by (simp add: mgi_Trp53_def hgnc_TP53_def hgnc_FOO_def)
  have sub: "set (nodes_of example_corpus) \<subseteq> set ?order"
    by (simp add: example_corpus_def nodes_of_def)
  have typed: "\<forall>e\<in>set (node example_corpus). snd e ''type'' \<noteq> None"
    by (simp add: example_corpus_def)
  from renamed_iff_key [OF scan_of_self wf_example_orthology_data wf_example_corpus d sub typed]
  obtain g' where g': "apply_mapping ?order example_orthology_data ?M example_corpus = Inr g'"
    and all: "\<forall>n\<in>set (nodes_of example_corpus). ?P g' n"
    by blast
  have ne: "hgnc_TP53 \<noteq> hgnc_FOO" "mgi_Trp53 \<noteq> hgnc_TP53" "mgi_Trp53 \<noteq> hgnc_FOO"
    by (simp_all add: mgi_Trp53_def hgnc_TP53_def hgnc_FOO_def)
  have F: "?F hgnc_TP53 = mgi_Trp53" "?F hgnc_FOO = hgnc_FOO"
    by (simp_all add: relabel_name_def example_data_mapping)
  have nodes: "set (nodes_of example_corpus) = {hgnc_TP53, hgnc_FOO}"
    by (simp add: example_corpus_def nodes_of_def)
  from all nodes have tp: "?P g' hgnc_TP53" and foo: "?P g' hgnc_FOO" by simp_all
  from foo example_data_mapping(3) have c3: "hgnc_FOO \<in> set (nodes_of g')" by blast
  from tp example_data_mapping(1) ne(2)
  have c1: "mgi_Trp53 \<in> set (nodes_of g')" and c2: "hgnc_TP53 \<notin> set (nodes_of g')"
    by blast+
  have only: "\<forall>x\<in>set (nodes_of example_corpus). ?F x = ?F hgnc_TP53 \<longrightarrow> x = hgnc_TP53"
    using ne by (simp add: nodes F)
  have dt: "map_of (node example_corpus) hgnc_TP53 = Some [''type'' \<mapsto> ''Gene''] \<and>
            [''type'' \<mapsto> ''Gene''] ''type'' = Some ''Gene'' \<and> ?M hgnc_TP53 = Some mgi_Trp53"
    by (simp add: example_corpus_def example_data_mapping)
  note third = tp [THEN conjunct2, THEN conjunct2, rule_format, OF only [rule_format] dt]
  have "''Gene'' \<in> set [''Gene'', ''RNA'', ''Protein'']" by simp
  with third [THEN conjunct1]
  have "\<exists>oa. map_of (node example_orthology_data) mgi_Trp53 = Some oa \<and>
             map_of (node g') mgi_Trp53 = Some ([''type'' \<mapsto> ''Gene''] ++ oa)"
    by (rule mp)
  moreover have "map_of (node example_orthology_data) mgi_Trp53
                   = Some [''type'' \<mapsto> ''Gene'', ''namespace'' \<mapsto> ''MGI'']"
    by (simp add: example_orthology_data_def mgi_Trp53_def hgnc_TP53_def)
  ultimately have c4: "map_of (node g') mgi_Trp53
          = Some ([''type'' \<mapsto> ''Gene''] ++ [''type'' \<mapsto> ''Gene'', ''namespace'' \<mapsto> ''MGI''])"
    by auto
  from g' c1 c2 c3 c4 show ?thesis by (intro exI [of _ g'] conjI)
qed

end
